theory Spec2Isabelle
  imports
    Complex_Main
    "HOL-Library.Char_ord"
    "HOL-Library.List_Lexorder"
    "HOL-Library.Multiset"
    "HOL-Library.AList"
begin

section \<open>The host object model\<close>

text \<open>
  The script \<^verbatim>\<open>remove_duplicate_shapes.jsx\<close> reads Illustrator objects by duck typing:
  it tests \<^verbatim>\<open>typename\<close> strings, asks whether a property is present
  (\<^verbatim>\<open>"pathPoints" in path\<close>) and reads the four flags. A page item is therefore one
  datatype carrying every property the script looks at; a property an object does not have
  is \<open>None\<close>, a \<^verbatim>\<open>null\<close> entry of a collection is \<open>None\<close> as well.
  The field \<open>ident\<close> stands for the identity of the JavaScript object (two items with equal
  geometry are still two objects); the script never reads it.

  A coordinate is a finite Number. Every finite double is a rational, and
  \<^verbatim>\<open>toFixed\<close> is specified on the exact mathematical value, so coordinates are
  \<^typ>\<open>rat\<close>. (\<^verbatim>\<open>NaN\<close> and the infinities are not modelled; \<^verbatim>\<open>-0\<close> prints like
  \<^verbatim>\<open>0\<close>.)
\<close>

datatype PointType = CORNER | SMOOTH

record pathPoint =
  anchor :: "rat \<times> rat"
  leftDirection :: "rat \<times> rat"
  rightDirection :: "rat \<times> rat"
  pointType :: PointType

datatype pageItem = PageItem
  (ident: nat)
  (typename: string)
  (locked: bool)
  (hidden: bool)
  (guides: bool)
  (clipping: bool)
  (pathPoints: "pathPoint list option")
  (closed_flag: bool)
  (pathItems: "pageItem option list option")
  (pageItems: "pageItem option list option")

section \<open>Built-ins of the language\<close>

text \<open>
  \<^verbatim>\<open>Array.prototype.join\<close>: the elements separated by \<open>sep\<close>; the empty array gives
  the empty string.
\<close>

fun join :: "string \<Rightarrow> string list \<Rightarrow> string" where
  "join sep [] = []"
| "join sep [x] = x"
| "join sep (x # y # ys) = x @ sep @ join sep (y # ys)"

text \<open>The decimal digits of a natural number, without leading zeros (\<open>0\<close> is \<open>''0''\<close>).\<close>

fun decimal :: "nat \<Rightarrow> string" where
  "decimal n =
     (if n < 10 then [''0123456789'' ! n]
      else decimal (n div 10) @ [''0123456789'' ! (n mod 10)])"

declare decimal.simps [simp del]

text \<open>
  \<^verbatim>\<open>Number.prototype.toFixed(f)\<close>, after ECMA-262 section 15.7.4.5. Its first step
  refuses a digit count out of range by throwing a \<^verbatim>\<open>RangeError\<close>: a negative one
  (excluded here by the type of \<open>f\<close>) and one above the largest the engine accepts, which
  is 20 in the third and fifth editions of the standard and 100 in current engines. That
  bound is the parameter \<open>maxDigits\<close>. An exception is a value of the type \<open>error\<close>, and
  a call that may throw returns \<open>Inl\<close> of the exception or \<open>Inr\<close> of its result.

  The remaining steps, for a digit count in range. For \<open>0 \<le> x < 10^21\<close>:
  let \<open>n\<close> be the integer for which \<open>n / 10^f - x\<close> is as close to zero as possible, the
  larger one if there are two; let \<open>m\<close> be the digits of \<open>n\<close>; if \<open>f \<noteq> 0\<close>, pad \<open>m\<close> with
  zeros on the left to \<open>f + 1\<close> characters and put a point before the last \<open>f\<close>.
  For \<open>x \<ge> 10^21\<close> the result is \<^verbatim>\<open>ToString(x)\<close>, an exponent form that depends on the
  double behind \<open>x\<close>: it is the parameter \<open>numberToString\<close>. A negative \<open>x\<close> prints as
  \<open>-\<close> followed by the result for \<open>-x\<close>.
\<close>

datatype error = RangeError

definition toFixed_n :: "rat \<Rightarrow> nat \<Rightarrow> nat" where
  "toFixed_n x f = nat \<lfloor>x * 10 ^ f + 1 / 2\<rfloor>"

definition toFixed_abs :: "(rat \<Rightarrow> string) \<Rightarrow> rat \<Rightarrow> nat \<Rightarrow> string" where
  "toFixed_abs numberToString x f =
     (if x \<ge> 10 ^ 21 then numberToString x
      else
        (let m = decimal (toFixed_n x f) in
         if f \<noteq> 0 then
           (let k = length m;
                m' = (if k \<le> f then replicate (f + 1 - k) CHR ''0'' @ m else m);
                k' = (if k \<le> f then f + 1 else k)
            in take (k' - f) m' @ ''.'' @ drop (k' - f) m')
         else m))"

definition toFixed_string :: "(rat \<Rightarrow> string) \<Rightarrow> rat \<Rightarrow> nat \<Rightarrow> string" where
  "toFixed_string numberToString x f =
     (if x < 0 then ''-'' @ toFixed_abs numberToString (- x) f
      else toFixed_abs numberToString x f)"

definition toFixed :: "nat \<Rightarrow> (rat \<Rightarrow> string) \<Rightarrow> rat \<Rightarrow> nat \<Rightarrow> error + string" where
  "toFixed maxDigits numberToString x f =
     (if f > maxDigits then Inl RangeError
      else Inr (toFixed_string numberToString x f))"

text \<open>What \<^verbatim>\<open>join\<close> makes of the enumeration value \<^verbatim>\<open>pt.pointType\<close>.\<close>

fun pointTypeString :: "PointType \<Rightarrow> string" where
  "pointTypeString CORNER = ''PointType.CORNER''"
| "pointTypeString SMOOTH = ''PointType.SMOOTH''"

section \<open>The script\<close>

text \<open>
  \<^verbatim>\<open>var precision = 1\<close> is a global the user may change; it is the parameter
  \<open>precision\<close> of every function that reads it. The script catches no exception of
  \<^verbatim>\<open>toFixed\<close>: one thrown inside \<^verbatim>\<open>pathToHash\<close> leaves every function on the way up
  to \<^verbatim>\<open>main\<close> and ends the script.
\<close>

definition containerTypes :: "string list" where
  "containerTypes = [''GroupItem'', ''CompoundPathItem'', ''Layer'']"

fun isContainerType_loop :: "string list \<Rightarrow> string \<Rightarrow> bool" where
  "isContainerType_loop [] typeName = False"
| "isContainerType_loop (c # cs) typeName =
     (if c = typeName then True else isContainerType_loop cs typeName)"

definition isContainerType :: "string \<Rightarrow> bool" where
  "isContainerType typeName = isContainerType_loop containerTypes typeName"

subsection \<open>pathToHash\<close>

text \<open>
  The elements of an array literal are evaluated from left to right; the first call of
  \<^verbatim>\<open>toFixed\<close> that throws ends the evaluation.
\<close>

fun toFixed_each ::
  "nat \<Rightarrow> (rat \<Rightarrow> string) \<Rightarrow> nat \<Rightarrow> rat list \<Rightarrow> error + string list" where
  "toFixed_each maxDigits numberToString precision [] = Inr []"
| "toFixed_each maxDigits numberToString precision (x # xs) =
     (case toFixed maxDigits numberToString x precision of
        Inl e \<Rightarrow> Inl e
      | Inr str \<Rightarrow>
          (case toFixed_each maxDigits numberToString precision xs of
             Inl e \<Rightarrow> Inl e
           | Inr strs \<Rightarrow> Inr (str # strs)))"

text \<open>The seven-element array of one path point, joined by commas.\<close>

definition pointHash ::
  "nat \<Rightarrow> (rat \<Rightarrow> string) \<Rightarrow> nat \<Rightarrow> pathPoint \<Rightarrow> error + string" where
  "pointHash maxDigits numberToString precision pt =
     (case toFixed_each maxDigits numberToString precision
             [fst (anchor pt), snd (anchor pt),
              fst (leftDirection pt), snd (leftDirection pt),
              fst (rightDirection pt), snd (rightDirection pt)] of
        Inl e \<Rightarrow> Inl e
      | Inr strs \<Rightarrow> Inr (join '','' (strs @ [pointTypeString (pointType pt)])))"

text \<open>The loop over \<^verbatim>\<open>path.pathPoints\<close>; \<open>pointHashes\<close> is the array being pushed to.\<close>

fun pathToHash_loop ::
  "nat \<Rightarrow> (rat \<Rightarrow> string) \<Rightarrow> nat \<Rightarrow> pathPoint list \<Rightarrow> string list
     \<Rightarrow> error + string list" where
  "pathToHash_loop maxDigits numberToString precision [] pointHashes = Inr pointHashes"
| "pathToHash_loop maxDigits numberToString precision (pt # pts) pointHashes =
     (case pointHash maxDigits numberToString precision pt of
        Inl e \<Rightarrow> Inl e
      | Inr hash \<Rightarrow>
          pathToHash_loop maxDigits numberToString precision pts (pointHashes @ [hash]))"

definition pathToHash ::
  "nat \<Rightarrow> (rat \<Rightarrow> string) \<Rightarrow> nat \<Rightarrow> pageItem option \<Rightarrow> error + string" where
  "pathToHash maxDigits numberToString precision path =
     (case path of
        None \<Rightarrow> Inr []
      | Some p \<Rightarrow>
          (case pathPoints p of
             None \<Rightarrow> Inr []
           | Some pts \<Rightarrow>
               if length pts = 0 then Inr []
               else
                 (case pathToHash_loop maxDigits numberToString precision pts [] of
                    Inl e \<Rightarrow> Inl e
                  | Inr pointHashes \<Rightarrow>
                      (let closed = (if closed_flag p then ''closed'' else ''open'')
                       in Inr (join '';'' pointHashes @ ''|'' @ closed)))))"

subsection \<open>compoundPathToHash\<close>

fun compoundPathToHash_loop ::
  "nat \<Rightarrow> (rat \<Rightarrow> string) \<Rightarrow> nat \<Rightarrow> pageItem option list \<Rightarrow> string list
     \<Rightarrow> error + string list" where
  "compoundPathToHash_loop maxDigits numberToString precision [] subpathHashes = Inr subpathHashes"
| "compoundPathToHash_loop maxDigits numberToString precision (sub # subs) subpathHashes =
     (case pathToHash maxDigits numberToString precision sub of
        Inl e \<Rightarrow> Inl e
      | Inr hash \<Rightarrow>
          compoundPathToHash_loop maxDigits numberToString precision subs
            (subpathHashes @ [hash]))"

text \<open>
  \<^verbatim>\<open>subpathHashes.sort()\<close> orders strings by code units; on the ASCII strings built
  here that is the lexicographic order of \<^typ>\<open>string\<close>.
\<close>

definition compoundPathToHash ::
  "nat \<Rightarrow> (rat \<Rightarrow> string) \<Rightarrow> nat \<Rightarrow> pageItem option \<Rightarrow> error + string" where
  "compoundPathToHash maxDigits numberToString precision compoundPath =
     (case compoundPath of
        None \<Rightarrow> Inr []
      | Some c \<Rightarrow>
          (case pathItems c of
             None \<Rightarrow> Inr []
           | Some subs \<Rightarrow>
               if length subs = 0 then Inr []
               else
                 (case compoundPathToHash_loop maxDigits numberToString precision subs [] of
                    Inl e \<Rightarrow> Inl e
                  | Inr subpathHashes \<Rightarrow> Inr (join ''|'' (sort subpathHashes)))))"

subsection \<open>collectPaths\<close>

text \<open>
  \<open>paths\<close> is the array the caller passes in; the function returns it with the found
  items pushed. A missing third argument (\<open>None\<close>) means \<^verbatim>\<open>"PathItem"\<close>.
  \<open>collectPaths_from\<close> is the function after its two guards on the arguments, for a
  container that is not \<^verbatim>\<open>null\<close> and a type name that is given: this is what the
  recursive call, on a child that passed \<^verbatim>\<open>!pageItem\<close>, comes to. \<open>collectPaths_loop\<close>
  is the loop over \<^verbatim>\<open>container.pageItems\<close>.
\<close>

fun collectPaths_from :: "pageItem \<Rightarrow> pageItem list \<Rightarrow> string \<Rightarrow> pageItem list"
  and collectPaths_loop :: "pageItem option list \<Rightarrow> pageItem list \<Rightarrow> string \<Rightarrow> pageItem list"
where
  "collectPaths_from (PageItem i tn lk hi gu cl pts cf subs None) paths pageItemTypename = paths"
| "collectPaths_from (PageItem i tn lk hi gu cl pts cf subs (Some items)) paths pageItemTypename =
     collectPaths_loop items paths pageItemTypename"
| "collectPaths_loop [] paths pageItemTypename = paths"
| "collectPaths_loop (None # rest) paths pageItemTypename =
     collectPaths_loop rest paths pageItemTypename"
| "collectPaths_loop (Some pageItem # rest) paths pageItemTypename =
     (if locked pageItem \<or> hidden pageItem \<or> guides pageItem \<or> clipping pageItem
      then collectPaths_loop rest paths pageItemTypename
      else if typename pageItem = pageItemTypename then
        (let paths1 =
               (if pageItemTypename = ''PathItem''
                   \<and> (case pathPoints pageItem of None \<Rightarrow> False | Some pts \<Rightarrow> length pts > 0)
                then paths @ [pageItem] else paths);
             paths2 =
               (if pageItemTypename = ''CompoundPathItem''
                   \<and> (case pathItems pageItem of None \<Rightarrow> False | Some subs \<Rightarrow> length subs > 0)
                then paths1 @ [pageItem] else paths1)
         in collectPaths_loop rest paths2 pageItemTypename)
      else if isContainerType (typename pageItem) then
        collectPaths_loop rest (collectPaths_from pageItem paths pageItemTypename) pageItemTypename
      else collectPaths_loop rest paths pageItemTypename)"

definition collectPaths ::
  "pageItem option \<Rightarrow> pageItem list \<Rightarrow> string option \<Rightarrow> pageItem list" where
  "collectPaths container paths pageItemTypename =
     (let t = (case pageItemTypename of None \<Rightarrow> ''PathItem'' | Some s \<Rightarrow> s)
      in case container of
           None \<Rightarrow> paths
         | Some c \<Rightarrow> collectPaths_from c paths t)"

definition collectCompoundPaths :: "pageItem option \<Rightarrow> pageItem list \<Rightarrow> pageItem list" where
  "collectCompoundPaths container paths = collectPaths container paths (Some ''CompoundPathItem'')"

subsection \<open>main\<close>

text \<open>
  The application is a parameter: a record of the operations the script calls on it, over
  a state \<open>'h\<close> of the application's own. \<open>remove\<close> is \<^verbatim>\<open>item.remove()\<close>: it returns
  the new state, and \<open>Some e\<close> when it throws \<open>e\<close>.
\<close>

record 'h host =
  documentsLength :: "'h \<Rightarrow> nat"
  layers :: "'h \<Rightarrow> pageItem option list"
  selection :: "'h \<Rightarrow> pageItem option list option"
  remove :: "pageItem \<Rightarrow> 'h \<Rightarrow> string option \<times> 'h"

text \<open>
  What a run leaves behind: the application's state, the console lines, the alerts, and
  the exception that ended the script, if one did.
\<close>

record 'h run =
  hostState :: 'h
  console :: "string list"
  alerts :: "string list"
  thrown :: "error option"

text \<open>
  The two grouping loops are one function of the hash function. The object
  \<^verbatim>\<open>hashToPaths\<close> is an association list in insertion order, the order in which
  \<^verbatim>\<open>for (var hash in ...)\<close> visits it. An empty hash is falsy and skipped; a hash not
  yet in the object gets the array with \<open>path\<close> alone, a hash already there has \<open>path\<close>
  pushed to its array. A hash function that throws ends the loop.
\<close>

fun groupByHash ::
  "(pageItem option \<Rightarrow> error + string) \<Rightarrow> pageItem list \<Rightarrow> (string \<times> pageItem list) list
     \<Rightarrow> error + (string \<times> pageItem list) list" where
  "groupByHash hashOf [] hashToPaths = Inr hashToPaths"
| "groupByHash hashOf (path # rest) hashToPaths =
     (case hashOf (Some path) of
        Inl e \<Rightarrow> Inl e
      | Inr hash \<Rightarrow>
          if hash = [] then groupByHash hashOf rest hashToPaths
          else
            (case map_of hashToPaths hash of
               None \<Rightarrow> groupByHash hashOf rest (AList.update hash [path] hashToPaths)
             | Some dups \<Rightarrow>
                 groupByHash hashOf rest (AList.update hash (dups @ [path]) hashToPaths)))"

text \<open>
  The inner loop \<^verbatim>\<open>for (var j = 1; j < dups.length; j++)\<close> runs over the members after the
  first. The state is the application's state, the removed count and the console.
\<close>

fun removeRest ::
  "'h host \<Rightarrow> pageItem list \<Rightarrow> 'h \<times> nat \<times> string list \<Rightarrow> 'h \<times> nat \<times> string list" where
  "removeRest host [] st = st"
| "removeRest host (d # ds) (h, removedCount, out) =
     (case remove host d h of
        (None, h') \<Rightarrow> removeRest host ds (h', Suc removedCount, out)
      | (Some e, h') \<Rightarrow> removeRest host ds (h', removedCount, out @ [e]))"

fun removeDuplicates ::
  "'h host \<Rightarrow> (string \<times> pageItem list) list \<Rightarrow> 'h \<times> nat \<times> string list
     \<Rightarrow> 'h \<times> nat \<times> string list" where
  "removeDuplicates host [] st = st"
| "removeDuplicates host ((hash, dups) # rest) st =
     removeDuplicates host rest (removeRest host (drop 1 dups) st)"

text \<open>
  The loops over \<^verbatim>\<open>doc.layers\<close>, for the compound paths and for the paths, and the
  loop over \<^verbatim>\<open>doc.selection\<close>.
\<close>

fun compoundPaths_loop :: "pageItem option list \<Rightarrow> pageItem list \<Rightarrow> pageItem list" where
  "compoundPaths_loop [] compoundPaths = compoundPaths"
| "compoundPaths_loop (layer # rest) compoundPaths =
     compoundPaths_loop rest (collectCompoundPaths layer compoundPaths)"

fun paths_loop :: "pageItem option list \<Rightarrow> pageItem list \<Rightarrow> pageItem list" where
  "paths_loop [] paths = paths"
| "paths_loop (layer # rest) paths = paths_loop rest (collectPaths layer paths None)"

fun collectSelection :: "pageItem option list \<Rightarrow> pageItem list \<Rightarrow> pageItem list" where
  "collectSelection [] paths = paths"
| "collectSelection (None # rest) paths = collectSelection rest paths"
| "collectSelection (Some selectionItem # rest) paths =
     (if locked selectionItem \<or> hidden selectionItem \<or> guides selectionItem
         \<or> clipping selectionItem
      then collectSelection rest paths
      else if typename selectionItem = ''PathItem'' then
        collectSelection rest (paths @ [selectionItem])
      else if isContainerType (typename selectionItem) then
        collectSelection rest (collectPaths (Some selectionItem) paths None)
      else collectSelection rest paths)"

definition summary :: "nat \<Rightarrow> nat \<Rightarrow> string" where
  "summary removedCount compoundRemovedCount =
     ''Removed '' @ decimal removedCount @ '' duplicate path item''
       @ (if removedCount = 1 then '', '' else ''s, '')
       @ decimal compoundRemovedCount @ '' duplicate compound path''
       @ (if compoundRemovedCount = 1 then ''!'' else ''s!'')"

definition nothingEligible :: string where
  "nothingEligible =
     ''No eligible paths found (check for locked/hidden items, or groups/compound paths).''"

text \<open>
  The candidates of the second phase. \<^verbatim>\<open>docLayersLength\<close> was read before the first
  phase removed anything; an index beyond the layers left reads \<^verbatim>\<open>undefined\<close>, which
  \<^verbatim>\<open>collectPaths\<close> ignores, so the loop sees the first \<open>docLayersLength\<close> layers.
\<close>

definition candidates :: "'h host \<Rightarrow> nat \<Rightarrow> 'h \<Rightarrow> pageItem list" where
  "candidates host docLayersLength h =
     (case selection host h of
        None \<Rightarrow> paths_loop (take docLayersLength (layers host h)) []
      | Some sel \<Rightarrow>
          if length sel > 0 then collectSelection sel []
          else paths_loop (take docLayersLength (layers host h)) [])"

text \<open>
  An exception of a hash function is not caught: the script ends there, with what the
  removals before it have done and no alert.
\<close>

definition main :: "'h host \<Rightarrow> nat \<Rightarrow> (rat \<Rightarrow> string) \<Rightarrow> nat \<Rightarrow> 'h \<Rightarrow> 'h run" where
  "main host maxDigits numberToString precision h0 =
     (if documentsLength host h0 = 0
      then \<lparr>hostState = h0, console = [], alerts = [''No documents are open.''], thrown = None\<rparr>
      else
        (let docLayersLength = length (layers host h0);
             compoundPaths = compoundPaths_loop (layers host h0) []
         in case groupByHash (compoundPathToHash maxDigits numberToString precision)
                   compoundPaths [] of
              Inl e \<Rightarrow> \<lparr>hostState = h0, console = [], alerts = [], thrown = Some e\<rparr>
            | Inr hashToCompoundPaths \<Rightarrow>
                (let (h1, compoundRemovedCount, out1) =
                       removeDuplicates host hashToCompoundPaths (h0, 0, []);
                     paths = candidates host docLayersLength h1
                 in if length paths = 0 \<and> length compoundPaths = 0
                    then \<lparr>hostState = h1, console = out1, alerts = [nothingEligible],
                          thrown = None\<rparr>
                    else
                      (case groupByHash (pathToHash maxDigits numberToString precision) paths [] of
                         Inl e \<Rightarrow> \<lparr>hostState = h1, console = out1, alerts = [], thrown = Some e\<rparr>
                       | Inr hashToPaths \<Rightarrow>
                           (let (h2, removedCount, out2) =
                                  removeDuplicates host hashToPaths (h1, 0, out1)
                            in \<lparr>hostState = h2, console = out2,
                                 alerts = [summary removedCount compoundRemovedCount],
                                 thrown = None\<rparr>)))))"

section \<open>The specification's words\<close>

text \<open>
  Section 4.1 of the specification: for each control point, in order, the six coordinates
  (anchor, incoming handle, outgoing handle; x before y) rounded to \<open>precision\<close> decimal
  digits and the kind tag, joined by commas; the tokens joined by semicolons; then a bar
  and the closed/open marker. No control points give the empty key.

  A number rounded to \<open>precision\<close> decimal digits is the multiple of \<open>10^-precision\<close>
  nearest to it, away from zero when two are as near. It is written as its sign, the
  digits of its integer part and, for \<open>precision > 0\<close>, a point and the \<open>precision\<close>
  digits of its fraction: with \<open>q\<close> the magnitude counted in units of \<open>10^-precision\<close>, the
  integer part is \<open>q div 10^precision\<close> and the fraction \<open>q mod 10^precision\<close>.
  \<open>fractionDigits n r\<close> are the last \<open>n\<close> decimal digits of \<open>r\<close>, with leading zeros.
\<close>

definition coordinates :: "pathPoint \<Rightarrow> rat list" where
  "coordinates cp =
     [fst (anchor cp), snd (anchor cp), fst (leftDirection cp), snd (leftDirection cp),
      fst (rightDirection cp), snd (rightDirection cp)]"

fun fractionDigits :: "nat \<Rightarrow> nat \<Rightarrow> string" where
  "fractionDigits 0 r = []"
| "fractionDigits (Suc n) r = fractionDigits n (r div 10) @ [''0123456789'' ! (r mod 10)]"

definition spec_rounded :: "rat \<Rightarrow> nat \<Rightarrow> string" where
  "spec_rounded x precision =
     (let q = nat (round (abs x * 10 ^ precision))
      in (if x < 0 then ''-'' else [])
           @ decimal (q div 10 ^ precision)
           @ (if precision = 0 then []
              else ''.'' @ fractionDigits precision (q mod 10 ^ precision)))"

definition spec_pointToken :: "nat \<Rightarrow> pathPoint \<Rightarrow> string" where
  "spec_pointToken precision cp =
     join '',''
       (map (\<lambda>x. spec_rounded x precision) (coordinates cp) @ [pointTypeString (pointType cp)])"

definition spec_fingerprint :: "nat \<Rightarrow> pathPoint list \<Rightarrow> bool \<Rightarrow> string" where
  "spec_fingerprint precision controlPoints isClosed =
     (if controlPoints = [] then []
      else join '';'' (map (spec_pointToken precision) controlPoints)
             @ ''|'' @ (if isClosed then ''closed'' else ''open''))"

text \<open>The eligibility flags of section 3: any of the four excludes an item.\<close>

definition flagged :: "pageItem \<Rightarrow> bool" where
  "flagged x = (locked x \<or> hidden x \<or> guides x \<or> clipping x)"

text \<open>
  Section 4.4, step 3: of every group, every member but the first is to be deleted, and
  each deletion is attempted whatever the earlier ones did. \<open>attempted\<close> lists those
  members, group after group; \<open>attemptAll\<close> calls \<^verbatim>\<open>remove()\<close> on each item of a list in
  turn and returns the outcomes (\<open>None\<close> for success, \<open>Some e\<close> for the error \<open>e\<close>) with
  the final state; \<open>successes\<close> counts the former and \<open>failures\<close> lists the latter.
\<close>

definition attempted :: "(string \<times> pageItem list) list \<Rightarrow> pageItem list" where
  "attempted groups = concat (map (\<lambda>(hash, dups). drop 1 dups) groups)"

fun attemptAll :: "'h host \<Rightarrow> pageItem list \<Rightarrow> 'h \<Rightarrow> string option list \<times> 'h" where
  "attemptAll host [] h = ([], h)"
| "attemptAll host (d # ds) h =
     (case remove host d h of
        (r, h') \<Rightarrow> (case attemptAll host ds h' of (rs, h'') \<Rightarrow> (r # rs, h'')))"

definition successes :: "string option list \<Rightarrow> nat" where
  "successes rs = length (filter (\<lambda>r. r = None) rs)"

definition failures :: "string option list \<Rightarrow> string list" where
  "failures rs = concat (map (\<lambda>r. case r of None \<Rightarrow> [] | Some e \<Rightarrow> [e]) rs)"

section \<open>Observing the calls of remove\<close>

text \<open>
  To say which items the script asks the application to remove, an application is wrapped
  so that its state also lists the items \<^verbatim>\<open>remove()\<close> was called on, in order. The
  wrapped application answers every call as the original does. \<open>calls\<close> reads the list
  from the state of a removal loop.
\<close>

definition recording :: "'h host \<Rightarrow> ('h \<times> pageItem list) host" where
  "recording host =
     \<lparr>documentsLength = (\<lambda>(h, cs). documentsLength host h),
      layers = (\<lambda>(h, cs). layers host h),
      selection = (\<lambda>(h, cs). selection host h),
      remove = (\<lambda>x (h, cs). case remove host x h of (r, h') \<Rightarrow> (r, (h', cs @ [x])))\<rparr>"

definition calls :: "('h \<times> pageItem list) \<times> nat \<times> string list \<Rightarrow> pageItem list" where
  "calls st = snd (fst st)"

section \<open>A reference application\<close>

text \<open>
  A small application to run scenarios on: a document is its layers, its selection and the
  identities of the items whose \<^verbatim>\<open>remove()\<close> throws. Removing an item takes it, and
  everything below it, out of the tree.
\<close>

record document =
  documentCount :: nat
  docLayers :: "pageItem option list"
  docSelection :: "pageItem option list option"
  undeletable :: "nat list"

fun withoutItem :: "nat \<Rightarrow> pageItem \<Rightarrow> pageItem"
  and withoutItems :: "nat \<Rightarrow> pageItem option list \<Rightarrow> pageItem option list"
where
  "withoutItem r (PageItem i tn lk hi gu cl pts cf None None) =
     PageItem i tn lk hi gu cl pts cf None None"
| "withoutItem r (PageItem i tn lk hi gu cl pts cf (Some subs) None) =
     PageItem i tn lk hi gu cl pts cf (Some (withoutItems r subs)) None"
| "withoutItem r (PageItem i tn lk hi gu cl pts cf None (Some items)) =
     PageItem i tn lk hi gu cl pts cf None (Some (withoutItems r items))"
| "withoutItem r (PageItem i tn lk hi gu cl pts cf (Some subs) (Some items)) =
     PageItem i tn lk hi gu cl pts cf (Some (withoutItems r subs)) (Some (withoutItems r items))"
| "withoutItems r [] = []"
| "withoutItems r (None # rest) = None # withoutItems r rest"
| "withoutItems r (Some x # rest) =
     (if ident x = r then withoutItems r rest else Some (withoutItem r x) # withoutItems r rest)"

definition removeFrom :: "pageItem \<Rightarrow> document \<Rightarrow> string option \<times> document" where
  "removeFrom x d =
     (if ident x \<in> set (undeletable d) then (Some ''Error: cannot remove'', d)
      else (None, d\<lparr>docLayers := withoutItems (ident x) (docLayers d),
                     docSelection := map_option (withoutItems (ident x)) (docSelection d)\<rparr>))"

definition illustrator :: "document host" where
  "illustrator =
     \<lparr>documentsLength = documentCount, layers = docLayers, selection = docSelection,
      remove = removeFrom\<rparr>"

section \<open>Sample data\<close>

text \<open>
  Items and documents for the scenarios. Their coordinates stay far below \<open>10^21\<close>, so the
  exponent form of \<^verbatim>\<open>ToString\<close> is never asked for and \<open>noExponent\<close> can stand for it.
\<close>

definition noExponent :: "rat \<Rightarrow> string" where
  "noExponent x = []"

definition corner :: "rat \<Rightarrow> rat \<Rightarrow> pathPoint" where
  "corner x y =
     \<lparr>anchor = (x, y), leftDirection = (x, y), rightDirection = (x, y), pointType = CORNER\<rparr>"

definition smooth :: "rat \<Rightarrow> rat \<Rightarrow> pathPoint" where
  "smooth x y =
     \<lparr>anchor = (x, y), leftDirection = (x, y), rightDirection = (x, y), pointType = SMOOTH\<rparr>"

definition pathItem :: "nat \<Rightarrow> pathPoint list \<Rightarrow> bool \<Rightarrow> pageItem" where
  "pathItem i pts isClosed =
     PageItem i ''PathItem'' False False False False (Some pts) isClosed None None"

definition compoundPathItem :: "nat \<Rightarrow> pageItem list \<Rightarrow> pageItem" where
  "compoundPathItem i subs =
     PageItem i ''CompoundPathItem'' False False False False None False (Some (map Some subs)) None"

definition layer :: "nat \<Rightarrow> pageItem list \<Rightarrow> pageItem" where
  "layer i items =
     PageItem i ''Layer'' False False False False None False None (Some (map Some items))"

definition triangle :: "pathPoint list" where
  "triangle = [corner 0 0, corner 10 0, corner 5 (17 / 2)]"

text \<open>Three paths with the same geometry, in one layer; in \<open>stubbornShapes\<close> B cannot be removed.\<close>

definition shapeA :: pageItem where
  "shapeA = pathItem 1 triangle True"

definition shapeB :: pageItem where
  "shapeB = pathItem 2 triangle True"

definition shapeC :: pageItem where
  "shapeC = pathItem 3 triangle True"

definition threeShapes :: document where
  "threeShapes =
     \<lparr>documentCount = 1, docLayers = [Some (layer 10 [shapeA, shapeB, shapeC])],
      docSelection = None, undeletable = []\<rparr>"

definition stubbornShapes :: document where
  "stubbornShapes = threeShapes\<lparr>undeletable := [2]\<rparr>"

text \<open>Two different sub-paths for a compound path.\<close>

definition ringA :: pageItem where
  "ringA = pathItem 11 triangle True"

definition ringB :: pageItem where
  "ringB = pathItem 12 [corner 2 2, corner 4 2, corner 3 4] True"

text \<open>Items without geometry.\<close>

definition emptyPathA :: pageItem where
  "emptyPathA = pathItem 21 [] False"

definition emptyPathB :: pageItem where
  "emptyPathB = pathItem 22 [] False"

definition emptyCompoundA :: pageItem where
  "emptyCompoundA = compoundPathItem 23 []"

definition emptyCompoundB :: pageItem where
  "emptyCompoundB = compoundPathItem 24 []"

definition emptyShapes :: document where
  "emptyShapes =
     \<lparr>documentCount = 1,
      docLayers = [Some (layer 10 [emptyPathA, emptyCompoundA, emptyPathB, emptyCompoundB])],
      docSelection = Some [Some emptyPathA, Some emptyPathB], undeletable = []\<rparr>"

definition pointlessCompoundA :: pageItem where
  "pointlessCompoundA = compoundPathItem 41 [pathItem 42 [] False, pathItem 43 [] False]"

definition pointlessCompoundB :: pageItem where
  "pointlessCompoundB = compoundPathItem 44 [pathItem 45 [] True, pathItem 46 [] False]"

definition pointlessCompounds :: document where
  "pointlessCompounds =
     \<lparr>documentCount = 1, docLayers = [Some (layer 10 [pointlessCompoundA, pointlessCompoundB])],
      docSelection = None, undeletable = []\<rparr>"

text \<open>Flagged items.\<close>

definition lockedShape :: pageItem where
  "lockedShape = PageItem 31 ''PathItem'' True False False False (Some triangle) True None None"

definition hiddenShape :: pageItem where
  "hiddenShape = PageItem 32 ''PathItem'' False True False False (Some triangle) True None None"

definition clippingShape :: pageItem where
  "clippingShape = PageItem 34 ''PathItem'' False False False True (Some triangle) True None None"

definition lockedGroup :: pageItem where
  "lockedGroup =
     PageItem 33 ''GroupItem'' True False False False None False None (Some [Some shapeB])"

definition lockedAndHidden :: document where
  "lockedAndHidden =
     \<lparr>documentCount = 1, docLayers = [Some (layer 10 [lockedShape, hiddenShape])],
      docSelection = None, undeletable = []\<rparr>"

text \<open>Documents with a selection.\<close>

definition clippingSelection :: document where
  "clippingSelection =
     \<lparr>documentCount = 1, docLayers = [Some (layer 10 [clippingShape, shapeA])],
      docSelection = Some [Some clippingShape], undeletable = []\<rparr>"

definition emptySelection :: document where
  "emptySelection =
     \<lparr>documentCount = 1, docLayers = [Some (layer 10 [emptyPathA, shapeA])],
      docSelection = Some [Some shapeA, Some emptyPathA, Some lockedShape], undeletable = []\<rparr>"



text \<open>Two one-point paths whose anchors differ by less than a hundredth.\<close>

definition nearA :: pageItem where
  "nearA = pathItem 51 [corner (19 / 128) 0] False"

definition nearB :: pageItem where
  "nearB = pathItem 52 [corner (39 / 256) 0] False"

text \<open>The documents of two scenarios of section 8 of the specification.\<close>

definition square :: "pathPoint list" where
  "square = [corner 0 0, corner 4 0, corner 4 4, corner 0 4]"

definition circle :: "pathPoint list" where
  "circle = [smooth 1 0, smooth 0 1, smooth (- 1) 0, smooth 0 (- 1)]"

definition selectedCircles :: document where
  "selectedCircles =
     \<lparr>documentCount = 1,
      docLayers =
        [Some (layer 10 [pathItem 61 circle True, pathItem 62 circle True,
                         pathItem 63 square True, pathItem 64 square True,
                         pathItem 65 square True])],
      docSelection = Some [Some (pathItem 61 circle True), Some (pathItem 62 circle True)],
      undeletable = []\<rparr>"

definition compoundsAndPaths :: document where
  "compoundsAndPaths =
     \<lparr>documentCount = 1,
      docLayers =
        [Some (layer 10 [compoundPathItem 71 [ringA, ringB], compoundPathItem 72 [ringB, ringA],
                         pathItem 73 square True, pathItem 74 square True])],
      docSelection = None, undeletable = []\<rparr>"

section \<open>Reading a key back\<close>

text \<open>
  Tools for the proofs about distinct keys: the number a digit string stands for, the
  pieces of a string between the occurrences of a separator, and the characters a field of
  a point token is made of. \<open>plain\<close> says that the coordinates of all points are below
  \<open>10^21\<close> in magnitude, where \<^verbatim>\<open>toFixed\<close> prints plain decimals.
\<close>

definition digitValue :: "char \<Rightarrow> nat" where
  "digitValue c = of_char c - 48"

definition decimalValue :: "string \<Rightarrow> nat" where
  "decimalValue s = foldl (\<lambda>a c. 10 * a + digitValue c) 0 s"

definition digitChars :: "char set" where
  "digitChars = set ''0123456789''"

fun splitOn :: "char \<Rightarrow> string \<Rightarrow> string list" where
  "splitOn c [] = [[]]"
| "splitOn c (x # xs) =
     (if x = c then [] # splitOn c xs
      else (case splitOn c xs of [] \<Rightarrow> [[x]] | w # ws \<Rightarrow> (x # w) # ws))"

definition fieldChars :: "char set" where
  "fieldChars = set ''-.0123456789PointTypeCORNERSMOOTH''"

text \<open>
  The token of a point and the key of a path as an engine that accepts the precision
  returns them: \<open>pointHash\<close> and \<open>pathToHash\<close> with the bound of \<^verbatim>\<open>toFixed\<close> at the
  precision itself, where no call throws. \<open>pointed\<close> says that a path has a point to
  format.
\<close>

definition pointToken :: "(rat \<Rightarrow> string) \<Rightarrow> nat \<Rightarrow> pathPoint \<Rightarrow> string" where
  "pointToken numberToString precision pt =
     projr (pointHash precision numberToString precision pt)"

definition pathKey :: "(rat \<Rightarrow> string) \<Rightarrow> nat \<Rightarrow> pageItem option \<Rightarrow> string" where
  "pathKey numberToString precision path =
     projr (pathToHash precision numberToString precision path)"

definition pointed :: "pageItem option \<Rightarrow> bool" where
  "pointed path =
     (case path of
        None \<Rightarrow> False
      | Some p \<Rightarrow> (case pathPoints p of None \<Rightarrow> False | Some pts \<Rightarrow> pts \<noteq> []))"

definition plainPoint :: "pathPoint \<Rightarrow> bool" where
  "plainPoint pt = list_all (\<lambda>x. abs x < 10 ^ 21) (coordinates pt)"

definition plain :: "pathPoint list \<Rightarrow> bool" where
  "plain pts = list_all plainPoint pts"

section \<open>Properties\<close>

subsection \<open>When toFixed throws\<close>

text \<open>
  \<^verbatim>\<open>toFixed\<close> throws exactly when \<open>precision\<close> is above the engine's bound, whatever the
  number. So \<open>pathToHash\<close> throws exactly when the bound is exceeded and the path has a
  point to format, and returns the key built from the strings of \<open>toFixed_string\<close>
  otherwise; \<open>compoundPathToHash\<close> throws when one of its sub-paths does.
\<close>

lemma toFixed_each_eq:
  "toFixed_each L ts p xs =
     (if p > L \<and> xs \<noteq> [] then Inl RangeError
      else Inr (map (\<lambda>x. toFixed_string ts x p) xs))"
  by (induction xs) (auto simp: toFixed_def)

lemma pointToken_unfold:
  "pointToken ts p pt =
     join '',''
       (map (\<lambda>x. toFixed_string ts x p) (coordinates pt) @ [pointTypeString (pointType pt)])"
  by (simp add: pointToken_def pointHash_def toFixed_each_eq coordinates_def)

lemma pointHash_eq:
  "pointHash L ts p pt = (if p > L then Inl RangeError else Inr (pointToken ts p pt))"
  by (simp add: pointHash_def toFixed_each_eq pointToken_unfold coordinates_def)

lemma pathToHash_loop_eq:
  "pathToHash_loop L ts p pts acc =
     (if p > L \<and> pts \<noteq> [] then Inl RangeError else Inr (acc @ map (pointToken ts p) pts))"
  by (induction pts arbitrary: acc) (simp_all add: pointHash_eq)

lemma pathKey_unfold:
  "pathKey ts p path =
     (case path of
        None \<Rightarrow> []
      | Some s \<Rightarrow>
          (case pathPoints s of
             None \<Rightarrow> []
           | Some pts \<Rightarrow>
               if pts = [] then []
               else join '';'' (map (pointToken ts p) pts)
                      @ ''|'' @ (if closed_flag s then ''closed'' else ''open'')))"
  by (simp add: pathKey_def pathToHash_def pathToHash_loop_eq split: option.splits)

lemma pathToHash_eq:
  "pathToHash L ts p path =
     (if p > L \<and> pointed path then Inl RangeError else Inr (pathKey ts p path))"
proof (cases path)
  case None
  then show ?thesis by (simp add: pathToHash_def pathKey_unfold pointed_def)
next
  case (Some s)
  show ?thesis
    by (cases "pathPoints s")
      (simp_all add: Some pathToHash_def pathKey_unfold pointed_def pathToHash_loop_eq)
qed

lemma pathToHash_in_range: "p \<le> L \<Longrightarrow> pathToHash L ts p path = Inr (pathKey ts p path)"
  by (simp add: pathToHash_eq)

lemma pathToHash_Inr: "pathToHash L ts p path = Inr k \<Longrightarrow> k = pathKey ts p path"
  by (simp add: pathToHash_eq split: if_splits)

lemma pathToHash_throws:
  "L < p \<Longrightarrow> pathPoints s = Some pts \<Longrightarrow> pts \<noteq> [] \<Longrightarrow> pathToHash L ts p (Some s) = Inl RangeError"
  by (simp add: pathToHash_eq pointed_def)

lemma compoundPathToHash_loop_eq:
  "compoundPathToHash_loop L ts p subs acc =
     (if p > L \<and> (\<exists>s \<in> set subs. pointed s) then Inl RangeError
      else Inr (acc @ map (pathKey ts p) subs))"
  by (induction subs arbitrary: acc) (auto simp: pathToHash_eq)

lemma compoundPathToHash_Some:
  "pathItems c = Some subs \<Longrightarrow> subs \<noteq> [] \<Longrightarrow>
   compoundPathToHash L ts p (Some c) =
     (if p > L \<and> (\<exists>s \<in> set subs. pointed s) then Inl RangeError
      else Inr (join ''|'' (sort (map (pathKey ts p) subs))))"
  by (simp add: compoundPathToHash_def compoundPathToHash_loop_eq)

lemma pathKey_Some:
  "pathPoints s = Some pts \<Longrightarrow> pts \<noteq> [] \<Longrightarrow>
   pathKey ts p (Some s) =
     join '';'' (map (pointToken ts p) pts) @ ''|''
       @ (if closed_flag s then ''closed'' else ''open'')"
  by (simp add: pathKey_unfold)

lemma pathKey_nonempty:
  "pathPoints s = Some pts \<Longrightarrow> pts \<noteq> [] \<Longrightarrow> pathKey ts p (Some s) \<noteq> []"
  by (simp add: pathKey_Some)

lemma pathKey_unpointed: "\<not> pointed path \<Longrightarrow> pathKey ts p path = []"
  by (auto simp: pathKey_unfold pointed_def split: option.splits)

subsection \<open>The model of join\<close>

text \<open>
  The standard builds the result of \<^verbatim>\<open>join\<close> from the left: the first element, then for
  each further element the separator and the element.
\<close>

lemma join_Cons: "join sep (x # xs) = x @ concat (map (\<lambda>s. sep @ s) xs)"
  by (induction sep "x # xs" arbitrary: x xs rule: join.induct) simp_all

lemma foldl_join: "foldl (\<lambda>r s. r @ sep @ s) x xs = x @ concat (map (\<lambda>s. sep @ s) xs)"
  by (induction xs arbitrary: x) simp_all

lemma join_foldl: "join sep (x # xs) = foldl (\<lambda>r s. r @ sep @ s) x xs"
  by (simp add: join_Cons foldl_join)

subsection \<open>The model of toFixed\<close>

lemma toFixed_n_int: "0 \<le> a \<Longrightarrow> int (toFixed_n a p) = \<lfloor>a * 10 ^ p + 1 / 2\<rfloor>"
  by (simp add: toFixed_n_def)

text \<open>
  \<open>toFixed_n\<close> is the integer the standard asks for: no integer \<open>k\<close> has \<open>k / 10^f\<close>
  closer to \<open>x\<close>, and an integer just as close is not larger.
\<close>

lemma toFixed_n_nearest:
  fixes x :: rat
  assumes "0 \<le> x"
  shows "\<bar>of_int (int (toFixed_n x f)) / 10 ^ f - x\<bar> \<le> \<bar>of_int k / 10 ^ f - x\<bar>"
    and "\<bar>of_int k / 10 ^ f - x\<bar> = \<bar>of_int (int (toFixed_n x f)) / 10 ^ f - x\<bar>
         \<Longrightarrow> k \<le> int (toFixed_n x f)"
proof -
  define y where "y = x * 10 ^ f"
  define n where "n = \<lfloor>y + 1 / 2\<rfloor>"
  have n: "int (toFixed_n x f) = n" using assms by (simp add: toFixed_n_int n_def y_def)
  have lo: "of_int n \<le> y + 1 / 2" and hi: "y + 1 / 2 < of_int n + 1"
    unfolding n_def by linarith+
  have near: "\<bar>of_int n - y\<bar> \<le> 1 / 2" using lo hi by linarith
  have far: "1 / 2 \<le> \<bar>of_int k - y\<bar>" if "k \<noteq> n"
  proof (cases "k < n")
    case True
    then have "k + 1 \<le> n" by simp
    then have "(of_int k :: rat) + 1 \<le> of_int n" by (metis of_int_le_iff of_int_add of_int_1)
    then show ?thesis using lo by linarith
  next
    case False
    then have "n + 1 \<le> k" using that by simp
    then have "(of_int n :: rat) + 1 \<le> of_int k" by (metis of_int_le_iff of_int_add of_int_1)
    then show ?thesis using hi by linarith
  qed
  have above: "\<bar>of_int n - y\<bar> < \<bar>of_int k - y\<bar>" if "n < k"
  proof -
    from that have "n + 1 \<le> k" by simp
    then have "(of_int n :: rat) + 1 \<le> of_int k" by (metis of_int_le_iff of_int_add of_int_1)
    then show ?thesis using lo hi by linarith
  qed
  have pos: "(0::rat) < 10 ^ f" by simp
  have scale: "\<bar>of_int j / 10 ^ f - x\<bar> = \<bar>of_int j - y\<bar> / 10 ^ f" for j :: int
  proof -
    have "of_int j / 10 ^ f - x = (of_int j - y) / 10 ^ f"
      by (simp add: y_def diff_divide_distrib)
    then show ?thesis using pos by simp
  qed
  have le: "\<bar>of_int n - y\<bar> \<le> \<bar>of_int k - y\<bar>"
    using near far by (cases "k = n") auto
  show "\<bar>of_int (int (toFixed_n x f)) / 10 ^ f - x\<bar> \<le> \<bar>of_int k / 10 ^ f - x\<bar>"
    unfolding n scale using le pos by (simp add: divide_right_mono)
  show "k \<le> int (toFixed_n x f)"
    if "\<bar>of_int k / 10 ^ f - x\<bar> = \<bar>of_int (int (toFixed_n x f)) / 10 ^ f - x\<bar>"
  proof (rule ccontr)
    assume "\<not> k \<le> int (toFixed_n x f)"
    then have "n < k" using n by simp
    then have "\<bar>of_int n - y\<bar> < \<bar>of_int k - y\<bar>" by (rule above)
    then have "\<bar>of_int n - y\<bar> / 10 ^ f < \<bar>of_int k - y\<bar> / 10 ^ f"
      using pos by (simp add: divide_strict_right_mono)
    then show False using that unfolding n scale by simp
  qed
qed

subsection \<open>Keys determine the rounded geometry\<close>

text \<open>
  About the keys \<open>pathToHash\<close> returns when \<^verbatim>\<open>toFixed\<close> accepts the precision, that is
  about \<open>pathKey\<close>: with all coordinates below \<open>10^21\<close> in magnitude, a key determines the
  number of points, their kind tags, the closed flag and, for every coordinate, the sign
  and the rounded integer.
\<close>

lemma digit_cases:
  assumes "d < (10::nat)"
  obtains "d = 0" | "d = 1" | "d = 2" | "d = 3" | "d = 4" | "d = 5" | "d = 6" | "d = 7" | "d = 8" | "d = 9"
proof -
  have "d = 0 \<or> d = 1 \<or> d = 2 \<or> d = 3 \<or> d = 4 \<or> d = 5 \<or> d = 6 \<or> d = 7 \<or> d = 8 \<or> d = 9"
    using assms by arith
  then show thesis using that by blast
qed

lemma digitValue_nth: "d < 10 \<Longrightarrow> digitValue (''0123456789'' ! d) = d"
  by (erule digit_cases) (simp_all add: digitValue_def)

lemma digit_nth_in: "d < 10 \<Longrightarrow> ''0123456789'' ! d \<in> digitChars"
  by (erule digit_cases) (simp_all add: digitChars_def)

lemma decimalValue_snoc: "decimalValue (s @ [c]) = 10 * decimalValue s + digitValue c"
  by (simp add: decimalValue_def)

lemma decimalValue_decimal: "decimalValue (decimal n) = n"
proof (induction n rule: decimal.induct)
  case (1 n)
  show ?case
  proof (cases "n < 10")
    case True
    then show ?thesis
      by (subst decimal.simps) (simp add: decimalValue_def digitValue_nth)
  next
    case False
    then have "decimalValue (decimal n) = 10 * decimalValue (decimal (n div 10)) + digitValue (''0123456789'' ! (n mod 10))"
      by (subst decimal.simps) (simp add: decimalValue_snoc)
    also have "\<dots> = 10 * (n div 10) + n mod 10"
      using 1 [OF False] by (simp add: digitValue_nth)
    finally show ?thesis by simp
  qed
qed

lemma decimal_chars: "set (decimal n) \<subseteq> digitChars"
proof (induction n rule: decimal.induct)
  case (1 n)
  show ?case
  proof (cases "n < 10")
    case True
    then show ?thesis
      by (subst decimal.simps) (simp add: digit_nth_in)
  next
    case False
    then show ?thesis
      using 1 [OF False] by (subst decimal.simps) (simp add: digit_nth_in)
  qed
qed

lemma decimal_nonempty: "decimal n \<noteq> []"
  by (subst decimal.simps) simp

lemma decimalValue_zeros: "decimalValue (replicate j CHR ''0'' @ s) = decimalValue s"
proof (induction j)
  case 0
  show ?case by simp
next
  case (Suc j)
  have "decimalValue (CHR ''0'' # t) = decimalValue t" for t
  proof -
    have "foldl (\<lambda>a c. 10 * a + digitValue c) (10 * 0 + digitValue CHR ''0'') t
          = foldl (\<lambda>a c. 10 * a + digitValue c) 0 t"
      by (simp add: digitValue_def)
    then show ?thesis by (simp add: decimalValue_def)
  qed
  then show ?case using Suc by simp
qed

lemma dot_notin_digits: "CHR ''.'' \<notin> digitChars"
  by (simp add: digitChars_def)

lemma filter_digits: "set s \<subseteq> digitChars \<Longrightarrow> filter (\<lambda>c. c \<in> digitChars) s = s"
  by (induction s) auto

lemma toFixed_abs_digits:
  assumes "x < 10 ^ 21"
  shows "\<exists>j. filter (\<lambda>c. c \<in> digitChars) (toFixed_abs ts x f) = replicate j CHR ''0'' @ decimal (toFixed_n x f)"
proof -
  let ?m = "decimal (toFixed_n x f)"
  have fm: "filter (\<lambda>c. c \<in> digitChars) ?m = ?m"
    by (rule filter_digits) (rule decimal_chars)
  show ?thesis
  proof (cases "f = 0")
    case True
    then have "toFixed_abs ts x f = ?m" using assms by (simp add: toFixed_abs_def)
    then have "filter (\<lambda>c. c \<in> digitChars) (toFixed_abs ts x f) = replicate 0 CHR ''0'' @ ?m"
      using fm by simp
    then show ?thesis by blast
  next
    case False
    define m' where "m' = (if length ?m \<le> f then replicate (f + 1 - length ?m) CHR ''0'' @ ?m else ?m)"
    define k' where "k' = (if length ?m \<le> f then f + 1 else length ?m)"
    have t: "toFixed_abs ts x f = take (k' - f) m' @ ''.'' @ drop (k' - f) m'"
      using assms False by (simp add: toFixed_abs_def Let_def m'_def k'_def)
    have zero: "CHR ''0'' \<in> digitChars" by (simp add: digitChars_def)
    obtain j where j: "m' = replicate j CHR ''0'' @ ?m"
    proof (cases "length ?m \<le> f")
      case True
      then have "m' = replicate (f + 1 - length ?m) CHR ''0'' @ ?m" by (simp add: m'_def)
      then show ?thesis using that by blast
    next
      case False
      then have "m' = replicate 0 CHR ''0'' @ ?m" by (simp add: m'_def)
      then show ?thesis using that by blast
    qed
    have fm': "filter (\<lambda>c. c \<in> digitChars) m' = m'"
      using j fm zero by simp
    have "filter (\<lambda>c. c \<in> digitChars) (toFixed_abs ts x f)
          = filter (\<lambda>c. c \<in> digitChars) (take (k' - f) m')
            @ filter (\<lambda>c. c \<in> digitChars) (drop (k' - f) m')"
      unfolding t using dot_notin_digits by simp
    also have "\<dots> = filter (\<lambda>c. c \<in> digitChars) (take (k' - f) m' @ drop (k' - f) m')"
      by (simp only: filter_append)
    also have "\<dots> = m'"
      by (simp only: append_take_drop_id fm')
    finally show ?thesis using j by auto
  qed
qed

lemma toFixed_abs_value:
  "x < 10 ^ 21 \<Longrightarrow>
   decimalValue (filter (\<lambda>c. c \<in> digitChars) (toFixed_abs ts x f)) = toFixed_n x f"
  using toFixed_abs_digits [of x ts f] by (auto simp: decimalValue_zeros decimalValue_decimal)

lemma toFixed_abs_chars:
  assumes "x < 10 ^ 21"
  shows "set (toFixed_abs ts x f) \<subseteq> insert CHR ''.'' digitChars"
proof -
  let ?m = "decimal (toFixed_n x f)"
  have zero: "CHR ''0'' \<in> digitChars" by (simp add: digitChars_def)
  have m: "set ?m \<subseteq> digitChars" by (rule decimal_chars)
  show ?thesis
  proof (cases "f = 0")
    case True
    then have "toFixed_abs ts x f = ?m" using assms by (simp add: toFixed_abs_def)
    then show ?thesis using m by auto
  next
    case False
    define m' where "m' = (if length ?m \<le> f then replicate (f + 1 - length ?m) CHR ''0'' @ ?m else ?m)"
    define k' where "k' = (if length ?m \<le> f then f + 1 else length ?m)"
    have t: "toFixed_abs ts x f = take (k' - f) m' @ ''.'' @ drop (k' - f) m'"
      using assms False by (simp add: toFixed_abs_def Let_def m'_def k'_def)
    have "set m' \<subseteq> digitChars" using m zero by (auto simp: m'_def)
    then have "set (take (k' - f) m') \<subseteq> digitChars" "set (drop (k' - f) m') \<subseteq> digitChars"
      using set_take_subset [of "k' - f" m'] set_drop_subset [of "k' - f" m'] by blast+
    then show ?thesis unfolding t by auto
  qed
qed

lemma toFixed_abs_hd:
  assumes "x < 10 ^ 21"
  shows "toFixed_abs ts x f \<noteq> [] \<and> hd (toFixed_abs ts x f) \<in> digitChars"
proof -
  let ?m = "decimal (toFixed_n x f)"
  have zero: "CHR ''0'' \<in> digitChars" by (simp add: digitChars_def)
  have m: "set ?m \<subseteq> digitChars" by (rule decimal_chars)
  have mne: "?m \<noteq> []" by (rule decimal_nonempty)
  show ?thesis
  proof (cases "f = 0")
    case True
    then have "toFixed_abs ts x f = ?m" using assms by (simp add: toFixed_abs_def)
    then show ?thesis using m mne hd_in_set [OF mne] by auto
  next
    case False
    define m' where "m' = (if length ?m \<le> f then replicate (f + 1 - length ?m) CHR ''0'' @ ?m else ?m)"
    define k' where "k' = (if length ?m \<le> f then f + 1 else length ?m)"
    have t: "toFixed_abs ts x f = take (k' - f) m' @ ''.'' @ drop (k' - f) m'"
      using assms False by (simp add: toFixed_abs_def Let_def m'_def k'_def)
    have sub: "set m' \<subseteq> digitChars" using m zero by (auto simp: m'_def)
    have pos: "0 < k' - f" by (simp add: k'_def)
    have m'ne: "m' \<noteq> []" using mne by (simp add: m'_def)
    have tne: "take (k' - f) m' \<noteq> []" using pos m'ne by simp
    have "hd (take (k' - f) m') = hd m'" using pos by (cases m') (auto simp: take_Cons')
    moreover have "hd m' \<in> digitChars" using sub hd_in_set [OF m'ne] by blast
    ultimately have "hd (toFixed_abs ts x f) \<in> digitChars" unfolding t using tne by simp
    then show ?thesis unfolding t by simp
  qed
qed

lemma splitOn_nonempty: "splitOn c s \<noteq> []"
  by (induction s) (auto split: list.splits)

lemma splitOn_free: "c \<notin> set s \<Longrightarrow> splitOn c s = [s]"
  by (induction s) auto

lemma splitOn_append:
  "c \<notin> set u \<Longrightarrow> splitOn c (u @ c # r) = u # splitOn c r"
  by (induction u) auto

lemma splitOn_join:
  assumes "xs \<noteq> []" and "\<forall>x \<in> set xs. c \<notin> set x"
  shows "splitOn c (join [c] xs) = xs"
  using assms
proof (induction "[c]" xs rule: join.induct)
  case 1
  then show ?case by simp
next
  case (2 x)
  then show ?case by (simp add: splitOn_free)
next
  case (3 x y ys)
  then show ?case by (simp add: splitOn_append)
qed

lemma join_inj:
  assumes "join [c] xs = join [c] ys" and "xs \<noteq> []" and "ys \<noteq> []"
    and "\<forall>x \<in> set xs. c \<notin> set x" and "\<forall>y \<in> set ys. c \<notin> set y"
  shows "xs = ys"
proof -
  have "splitOn c (join [c] xs) = splitOn c (join [c] ys)" using assms(1) by simp
  then show ?thesis using assms(2-5) by (simp add: splitOn_join)
qed

text \<open>Below \<open>10^21\<close> the string of \<^verbatim>\<open>toFixed\<close> determines the sign and the rounded integer.\<close>

lemma minus_notin_digits: "CHR ''-'' \<notin> digitChars"
  by (simp add: digitChars_def)

lemma toFixed_string_hd:
  assumes "abs x < 10 ^ 21"
  shows "hd (toFixed_string ts x f) = CHR ''-'' \<longleftrightarrow> x < 0"
proof (cases "x < 0")
  case True
  then show ?thesis by (simp add: toFixed_string_def)
next
  case False
  then have "x < 10 ^ 21" using assms by simp
  then have "hd (toFixed_abs ts x f) \<in> digitChars" using toFixed_abs_hd by blast
  then have "hd (toFixed_abs ts x f) \<noteq> CHR ''-''" using minus_notin_digits by auto
  then show ?thesis using False by (simp add: toFixed_string_def)
qed

lemma toFixed_string_value:
  assumes "abs x < 10 ^ 21"
  shows "decimalValue (filter (\<lambda>c. c \<in> digitChars) (toFixed_string ts x f)) = toFixed_n (abs x) f"
proof (cases "x < 0")
  case True
  then have "- x < 10 ^ 21" using assms by simp
  then show ?thesis using True minus_notin_digits
    by (simp add: toFixed_string_def toFixed_abs_value abs_if)
next
  case False
  then have "x < 10 ^ 21" using assms by simp
  then show ?thesis using False by (simp add: toFixed_string_def toFixed_abs_value abs_if)
qed

lemma toFixed_string_inj:
  assumes "toFixed_string ts x f = toFixed_string ts y f" and "abs x < 10 ^ 21" and "abs y < 10 ^ 21"
  shows "(x < 0 \<longleftrightarrow> y < 0) \<and> toFixed_n (abs x) f = toFixed_n (abs y) f"
  using toFixed_string_hd [OF assms(2), of ts f] toFixed_string_hd [OF assms(3), of ts f]
    toFixed_string_value [OF assms(2), of ts f] toFixed_string_value [OF assms(3), of ts f] assms(1)
  by simp

lemma toFixed_string_chars:
  assumes "abs x < 10 ^ 21"
  shows "set (toFixed_string ts x f) \<subseteq> fieldChars"
proof -
  have d: "insert CHR ''.'' digitChars \<subseteq> fieldChars" and m: "CHR ''-'' \<in> fieldChars"
    by (simp_all add: digitChars_def fieldChars_def)
  show ?thesis
  proof (cases "x < 0")
    case True
    then have "- x < 10 ^ 21" using assms by simp
    then show ?thesis using True d m toFixed_abs_chars [of "- x" ts f]
      by (auto simp: toFixed_string_def)
  next
    case False
    then have "x < 10 ^ 21" using assms by simp
    then show ?thesis using False d toFixed_abs_chars [of x ts f]
      by (auto simp: toFixed_string_def)
  qed
qed

lemma pointTypeString_chars: "set (pointTypeString k) \<subseteq> fieldChars"
  by (cases k) (simp_all add: fieldChars_def)

lemma pointTypeString_inj: "pointTypeString a = pointTypeString b \<Longrightarrow> a = b"
  by (cases a; cases b) simp_all

lemma separators_notin_fieldChars:
  "CHR '','' \<notin> fieldChars" "CHR '';'' \<notin> fieldChars" "CHR ''|'' \<notin> fieldChars"
  by (simp_all add: fieldChars_def)

lemma pointToken_coordinates:
  "pointToken ts p pt =
     join '','' (map (\<lambda>x. toFixed_string ts x p) (coordinates pt) @ [pointTypeString (pointType pt)])"
  by (simp add: pointToken_unfold coordinates_def)

lemma join_chars: "set (join sep xs) \<subseteq> set sep \<union> \<Union> (set ` set xs)"
  by (induction sep xs rule: join.induct) auto

lemma fields_chars:
  assumes "plainPoint pt"
  shows "\<forall>s \<in> set (map (\<lambda>x. toFixed_string ts x p) (coordinates pt) @ [pointTypeString (pointType pt)]).
           set s \<subseteq> fieldChars"
  using assms toFixed_string_chars pointTypeString_chars
  by (auto simp: plainPoint_def list_all_iff)

lemma pointToken_chars:
  assumes "plainPoint pt"
  shows "set (pointToken ts p pt) \<subseteq> insert CHR '','' fieldChars"
proof -
  let ?fs = "map (\<lambda>x. toFixed_string ts x p) (coordinates pt) @ [pointTypeString (pointType pt)]"
  have "set (join '','' ?fs) \<subseteq> set '','' \<union> \<Union> (set ` set ?fs)" by (rule join_chars)
  moreover have "\<Union> (set ` set ?fs) \<subseteq> fieldChars" using fields_chars [OF assms, of ts p] by blast
  ultimately show ?thesis unfolding pointToken_coordinates by auto
qed

lemma pointToken_inj:
  assumes "pointToken ts p a = pointToken ts p b" and "plainPoint a" and "plainPoint b"
  shows "map (\<lambda>x. toFixed_string ts x p) (coordinates a) = map (\<lambda>x. toFixed_string ts x p) (coordinates b)
       \<and> pointType a = pointType b"
proof -
  let ?fa = "map (\<lambda>x. toFixed_string ts x p) (coordinates a) @ [pointTypeString (pointType a)]"
  let ?fb = "map (\<lambda>x. toFixed_string ts x p) (coordinates b) @ [pointTypeString (pointType b)]"
  have na: "\<forall>s \<in> set ?fa. CHR '','' \<notin> set s"
    using fields_chars [OF assms(2), of ts p] separators_notin_fieldChars(1) by blast
  have nb: "\<forall>s \<in> set ?fb. CHR '','' \<notin> set s"
    using fields_chars [OF assms(3), of ts p] separators_notin_fieldChars(1) by blast
  have "join '','' ?fa = join '','' ?fb" using assms(1) by (simp only: pointToken_coordinates)
  then have "?fa = ?fb" using na nb by (intro join_inj [of "CHR '',''"]) simp_all
  then show ?thesis using pointTypeString_inj by (simp add: coordinates_def)
qed

lemma hashes_chars:
  assumes "plain pts"
  shows "\<forall>s \<in> set (map (pointToken ts p) pts). CHR '';'' \<notin> set s \<and> CHR ''|'' \<notin> set s"
proof
  fix s assume "s \<in> set (map (pointToken ts p) pts)"
  then obtain pt where pt: "pt \<in> set pts" and s: "s = pointToken ts p pt" by auto
  have "plainPoint pt" using assms pt by (simp add: plain_def list_all_iff)
  then have "set s \<subseteq> insert CHR '','' fieldChars" unfolding s by (rule pointToken_chars)
  then show "CHR '';'' \<notin> set s \<and> CHR ''|'' \<notin> set s"
    using separators_notin_fieldChars by auto
qed

lemma pathKey_parts:
  assumes "pathPoints s = Some pts" and "pts \<noteq> []"
  shows "pathKey ts p (Some s) =
     join ''|'' [join '';'' (map (pointToken ts p) pts), if closed_flag s then ''closed'' else ''open'']"
  using assms by (simp add: pathKey_Some)

lemma pathKey_inj:
  assumes "pathPoints s1 = Some pts1" and "pathPoints s2 = Some pts2"
    and "plain pts1" and "plain pts2"
    and "pathKey ts p (Some s1) = pathKey ts p (Some s2)"
  shows "map (pointToken ts p) pts1 = map (pointToken ts p) pts2
       \<and> (pts1 \<noteq> [] \<longrightarrow> closed_flag s1 = closed_flag s2)"
proof (cases "pts1 = []")
  case True
  then have "pathKey ts p (Some s1) = []" using assms(1) by (simp add: pathKey_unfold)
  then have "pathKey ts p (Some s2) = []" using assms(5) by simp
  then have "pts2 = []" using assms(2) pathKey_nonempty [of s2 pts2 ts p] by blast
  then show ?thesis using True by simp
next
  case False
  have ne2: "pts2 \<noteq> []"
  proof
    assume "pts2 = []"
    then have "pathKey ts p (Some s2) = []" using assms(2) by (simp add: pathKey_unfold)
    then show False using assms(1,5) False pathKey_nonempty [of s1 pts1 ts p] by simp
  qed
  let ?b1 = "join '';'' (map (pointToken ts p) pts1)"
  let ?b2 = "join '';'' (map (pointToken ts p) pts2)"
  let ?m1 = "if closed_flag s1 then ''closed'' else ''open''"
  let ?m2 = "if closed_flag s2 then ''closed'' else ''open''"
  have bar1: "CHR ''|'' \<notin> set ?b1"
    using join_chars [of "'';''" "map (pointToken ts p) pts1"] hashes_chars [OF assms(3), of ts p]
    by auto
  have bar2: "CHR ''|'' \<notin> set ?b2"
    using join_chars [of "'';''" "map (pointToken ts p) pts2"] hashes_chars [OF assms(4), of ts p]
    by auto
  have "join ''|'' [?b1, ?m1] = join ''|'' [?b2, ?m2]"
    using assms(5) pathKey_parts [OF assms(1) False] pathKey_parts [OF assms(2) ne2]
    by simp
  then have "[?b1, ?m1] = [?b2, ?m2]"
    using bar1 bar2 by (intro join_inj [of "CHR ''|''"]) (simp_all split: if_splits)
  then have b: "?b1 = ?b2" and m: "closed_flag s1 = closed_flag s2"
    by (simp_all split: if_splits)
  have "map (pointToken ts p) pts1 = map (pointToken ts p) pts2"
    using b False ne2 hashes_chars [OF assms(3), of ts p] hashes_chars [OF assms(4), of ts p]
    by (intro join_inj [of "CHR '';''"]) simp_all
  then show ?thesis using m by simp
qed

text \<open>
  The order of the points matters: the reversed outline has another key, unless its tokens
  read the same in both directions.
\<close>

lemma point_order_sensitive:
  assumes "pathPoints s = Some pts" and "pathPoints s' = Some (rev pts)" and "plain pts"
    and "map (pointToken ts p) pts \<noteq> rev (map (pointToken ts p) pts)"
  shows "pathKey ts p (Some s') \<noteq> pathKey ts p (Some s)"
proof
  assume e: "pathKey ts p (Some s') = pathKey ts p (Some s)"
  have "plain (rev pts)" using assms(3) by (simp add: plain_def)
  from pathKey_inj [OF assms(2) assms(1) this assms(3) e]
  show False using assms(4) by (simp add: rev_map)
qed

lemma pathKey_contains_bar:
  "pathKey ts p x \<noteq> [] \<Longrightarrow> CHR ''|'' \<in> set (pathKey ts p x)"
  by (auto simp: pathKey_unfold Let_def split: option.splits if_splits)

lemma join_bar:
  assumes "join ''|'' xs \<noteq> []" and "\<forall>x \<in> set xs. x \<noteq> [] \<longrightarrow> CHR ''|'' \<in> set x"
  shows "CHR ''|'' \<in> set (join ''|'' xs)"
  using assms by (induction "''|''" xs rule: join.induct) auto

text \<open>Below \<open>10^21\<close> the parameter \<open>numberToString\<close> is never asked.\<close>

lemma toFixed_string_any_numberToString:
  "abs x < 10 ^ 21 \<Longrightarrow> toFixed_string ts x f = toFixed_string ts' x f"
  by (cases "x < 0") (simp_all add: toFixed_string_def toFixed_abs_def)

lemma pointToken_any_numberToString:
  "plainPoint pt \<Longrightarrow> pointToken ts p pt = pointToken ts' p pt"
  by (simp add: pointToken_unfold plainPoint_def coordinates_def toFixed_string_any_numberToString [of _ ts _ ts'])

lemma pathKey_any_numberToString:
  assumes "pathPoints s = Some pts" and "plain pts"
  shows "pathKey ts p (Some s) = pathKey ts' p (Some s)"
proof -
  have m: "map (pointToken ts p) pts = map (pointToken ts' p) pts"
    using assms(2) pointToken_any_numberToString [of _ ts p ts']
    by (simp add: plain_def list_all_iff)
  show ?thesis
  proof (cases "pts = []")
    case True
    then show ?thesis using assms(1) by (simp add: pathKey_unfold)
  next
    case False
    show ?thesis
      unfolding pathKey_Some [OF assms(1) False] m by (rule refl)
  qed
qed
subsection \<open>The fingerprint of a simple shape\<close>

text \<open>
  The digits the standard's \<^verbatim>\<open>toFixed\<close> produces by padding the digit string of \<open>n\<close> and
  cutting it before the last \<open>f\<close> characters are the digits of \<open>n div 10^f\<close> followed by
  the \<open>f\<close> digits of \<open>n mod 10^f\<close>; and \<open>n\<close> is the magnitude rounded to the nearest
  integer number of units. So below \<open>10^21\<close> the string of \<^verbatim>\<open>toFixed\<close> is the number
  rounded to \<open>f\<close> decimal digits, as the specification words it.
\<close>

lemma fractionDigits_length: "length (fractionDigits n r) = n"
  by (induction n arbitrary: r) simp_all

lemma fractionDigits_zero: "fractionDigits n 0 = replicate n CHR ''0''"
  by (induction n) (simp_all add: replicate_append_same)

lemma fractionDigits_mod: "fractionDigits n (r mod 10 ^ n) = fractionDigits n r"
proof (induction n arbitrary: r)
  case 0
  show ?case by simp
next
  case (Suc n)
  have m: "r mod (10 * 10 ^ n) = 10 * (r div 10 mod 10 ^ n) + r mod 10"
    by (rule mod_mult2_eq)
  have "(r mod (10 * 10 ^ n)) div 10 = r div 10 mod 10 ^ n"
    unfolding m by simp
  moreover have "(r mod (10 * 10 ^ n)) mod 10 = r mod 10"
    unfolding m by simp
  ultimately show ?case using Suc [of "r div 10"] by simp
qed

lemma fractionDigits_value: "decimalValue (fractionDigits n r) = r mod 10 ^ n"
proof (induction n arbitrary: r)
  case 0
  show ?case by (simp add: decimalValue_def)
next
  case (Suc n)
  have "decimalValue (fractionDigits (Suc n) r) = 10 * (r div 10 mod 10 ^ n) + r mod 10"
    by (simp add: decimalValue_snoc Suc digitValue_nth)
  also have "\<dots> = r mod (10 * 10 ^ n)"
    by (rule mod_mult2_eq [symmetric])
  finally show ?case by simp
qed

lemma padded_decimal:
  "replicate (Suc f - length (decimal q)) CHR ''0'' @ decimal q
     = decimal (q div 10 ^ f) @ fractionDigits f q"
proof (induction f arbitrary: q)
  case 0
  have "Suc 0 - length (decimal q) = 0"
    using decimal_nonempty [of q] by (cases "decimal q") simp_all
  then show ?case by simp
next
  case (Suc f)
  show ?case
  proof (cases "q < 10")
    case True
    have d: "decimal q = [''0123456789'' ! q]" using True by (subst decimal.simps) simp
    have "(1::nat) \<le> 10 ^ f" by simp
    then have "(10::nat) * 1 \<le> 10 * 10 ^ f" by (rule mult_le_mono2)
    then have "q < 10 * 10 ^ f" using True by linarith
    then have "q < 10 ^ Suc f" by simp
    then have z: "q div 10 ^ Suc f = 0" by simp
    have d0: "decimal 0 = ''0''" by (subst decimal.simps) simp
    have "q div 10 = 0" "q mod 10 = q" using True by simp_all
    then show ?thesis
      unfolding z d0 by (simp add: d fractionDigits_zero replicate_append_same)
  next
    case False
    have d: "decimal q = decimal (q div 10) @ [''0123456789'' ! (q mod 10)]"
      using False by (subst decimal.simps) simp
    have "(q div 10) div 10 ^ f = q div 10 ^ Suc f"
      by (simp add: div_mult2_eq)
    then show ?thesis
      using Suc [of "q div 10"] by (simp add: d)
  qed
qed

lemma toFixed_abs_parts:
  assumes "x < 10 ^ 21"
  shows "toFixed_abs ts x f =
     decimal (toFixed_n x f div 10 ^ f)
       @ (if f = 0 then [] else ''.'' @ fractionDigits f (toFixed_n x f mod 10 ^ f))"
proof (cases "f = 0")
  case True
  then show ?thesis using assms by (simp add: toFixed_abs_def)
next
  case False
  define n where "n = toFixed_n x f"
  define m where "m = decimal n"
  define m' where "m' = (if length m \<le> f then replicate (f + 1 - length m) CHR ''0'' @ m else m)"
  define k' where "k' = (if length m \<le> f then f + 1 else length m)"
  have t: "toFixed_abs ts x f = take (k' - f) m' @ ''.'' @ drop (k' - f) m'"
    using assms False by (simp add: toFixed_abs_def Let_def m'_def k'_def m_def n_def)
  have "m' = replicate (Suc f - length m) CHR ''0'' @ m"
    by (simp add: m'_def)
  then have parts: "m' = decimal (n div 10 ^ f) @ fractionDigits f n"
    unfolding m_def by (simp only: padded_decimal)
  have len: "length m' = k'" by (simp add: m'_def k'_def)
  have "length (decimal (n div 10 ^ f)) = k' - f"
    using len unfolding parts by (simp add: fractionDigits_length)
  then have "take (k' - f) m' = decimal (n div 10 ^ f)"
    and "drop (k' - f) m' = fractionDigits f n"
    unfolding parts by simp_all
  then show ?thesis
    unfolding t using False by (simp add: n_def fractionDigits_mod)
qed

lemma toFixed_n_round: "toFixed_n x f = nat (round (x * 10 ^ f))"
  by (simp add: toFixed_n_def round_def)

lemma toFixed_string_rounded:
  assumes "abs x < 10 ^ 21"
  shows "toFixed_string ts x f = spec_rounded x f"
proof (cases "x < 0")
  case True
  then have "- x < 10 ^ 21" and "abs x = - x" using assms by simp_all
  then show ?thesis
    using True by (simp add: toFixed_string_def spec_rounded_def Let_def toFixed_abs_parts toFixed_n_round)
next
  case False
  then have "x < 10 ^ 21" and "abs x = x" using assms by simp_all
  then show ?thesis
    using False by (simp add: toFixed_string_def spec_rounded_def Let_def toFixed_abs_parts toFixed_n_round)
qed

lemma pointToken_spec: "plainPoint pt \<Longrightarrow> pointToken ts p pt = spec_pointToken p pt"
  by (simp add: pointToken_unfold spec_pointToken_def plainPoint_def list_all_iff
      toFixed_string_rounded cong: map_cong)

lemma pathKey_fingerprint:
  assumes "pathPoints s = Some pts" and "pts \<noteq> []" and "plain pts"
  shows "pathKey ts p (Some s) = spec_fingerprint p pts (closed_flag s)"
proof -
  have m: "map (pointToken ts p) pts = map (spec_pointToken p) pts"
    using assms(3) by (simp add: plain_def list_all_iff pointToken_spec cong: map_cong)
  show ?thesis
    unfolding pathKey_Some [OF assms(1,2)] m using assms(2) by (simp add: spec_fingerprint_def)
qed

text \<open>
  From \<open>10^21\<close> on the string is the exponent form of \<^verbatim>\<open>ToString\<close>, whatever the
  precision. A string with the letter \<open>e\<close> in it, as that form has, is not the number
  rounded to \<open>f\<close> decimal digits.
\<close>

lemma toFixed_string_exponent:
  assumes "10 ^ 21 \<le> abs x"
  shows "toFixed_string ts x f = (if x < 0 then ''-'' @ ts (- x) else ts x)"
proof (cases "x < 0")
  case True
  then have "10 ^ 21 \<le> - x" using assms by simp
  then show ?thesis
    using True by (simp add: toFixed_string_def toFixed_abs_def)
next
  case False
  then have "10 ^ 21 \<le> x" using assms by simp
  then show ?thesis
    using False by (simp add: toFixed_string_def toFixed_abs_def)
qed

lemma fractionDigits_chars: "set (fractionDigits n r) \<subseteq> digitChars"
  by (induction n arbitrary: r) (simp_all add: digit_nth_in)

lemma spec_rounded_chars:
  "set (spec_rounded x f) \<subseteq> insert CHR ''-'' (insert CHR ''.'' digitChars)"
proof -
  define q where "q = nat (round (abs x * 10 ^ f))"
  have "set (decimal (q div 10 ^ f)) \<subseteq> digitChars" by (rule decimal_chars)
  moreover have "set (fractionDigits f (q mod 10 ^ f)) \<subseteq> digitChars"
    by (rule fractionDigits_chars)
  ultimately show ?thesis
    unfolding spec_rounded_def Let_def q_def [symmetric] by auto
qed

lemma exponent_form_not_rounded:
  assumes "10 ^ 21 \<le> abs x" and "CHR ''e'' \<in> set (ts (abs x))"
  shows "toFixed_string ts x f \<noteq> spec_rounded x f"
proof
  assume e: "toFixed_string ts x f = spec_rounded x f"
  have "CHR ''e'' \<in> set (toFixed_string ts x f)"
    using assms(2) by (simp add: toFixed_string_exponent [OF assms(1)] abs_if split: if_splits)
  then have "CHR ''e'' \<in> insert CHR ''-'' (insert CHR ''.'' digitChars)"
    unfolding e using spec_rounded_chars by blast
  then show False by (simp add: digitChars_def)
qed

text \<open>
  What the specification's rounded number says: read as one number, its digits count the
  units of \<open>10^-f\<close> in the magnitude, rounded to the nearest integer, which is at most
  half a unit away.
\<close>

lemma decimalValue_append:
  "decimalValue (a @ b) = decimalValue a * 10 ^ length b + decimalValue b"
proof (induction b rule: rev_induct)
  case Nil
  show ?case by (simp add: decimalValue_def)
next
  case (snoc c b)
  have "decimalValue (a @ b @ [c]) = 10 * decimalValue (a @ b) + digitValue c"
    using decimalValue_snoc [of "a @ b" c] by simp
  then show ?case by (simp add: snoc decimalValue_snoc algebra_simps)
qed

lemma spec_rounded_value:
  "decimalValue (filter (\<lambda>c. c \<in> digitChars) (spec_rounded x p)) = nat (round (abs x * 10 ^ p))"
proof -
  define q where "q = nat (round (abs x * 10 ^ p))"
  let ?a = "decimal (q div 10 ^ p)" and ?b = "fractionDigits p (q mod 10 ^ p)"
  have fa: "filter (\<lambda>c. c \<in> digitChars) ?a = ?a"
    by (rule filter_digits) (rule decimal_chars)
  have fb: "filter (\<lambda>c. c \<in> digitChars) ?b = ?b"
    by (rule filter_digits) (rule fractionDigits_chars)
  have "decimalValue (?a @ ?b) = q div 10 ^ p * 10 ^ p + q mod 10 ^ p"
    by (simp add: decimalValue_append decimalValue_decimal fractionDigits_value
        fractionDigits_length)
  also have "\<dots> = q" by (rule div_mult_mod_eq)
  finally have v: "decimalValue (?a @ ?b) = q" .
  show ?thesis
  proof (cases "p = 0")
    case True
    have fd: "filter (\<lambda>c. c \<in> digitChars) (decimal n) = decimal n" for n
      by (rule filter_digits) (rule decimal_chars)
    show ?thesis
      using True minus_notin_digits
      by (simp add: spec_rounded_def Let_def fd decimalValue_decimal)
  next
    case False
    then have "filter (\<lambda>c. c \<in> digitChars) (spec_rounded x p) = ?a @ ?b"
      using fa fb minus_notin_digits dot_notin_digits
      by (simp add: spec_rounded_def Let_def q_def [symmetric])
    then show ?thesis using v by (simp add: q_def)
  qed
qed

lemma spec_rounded_nearest:
  fixes x :: rat
  shows "\<bar>of_int (round (abs x * 10 ^ p)) / 10 ^ p - abs x\<bar> \<le> 1 / 2 / 10 ^ p"
proof -
  define d where "d = of_int (round (abs x * 10 ^ p)) - abs x * 10 ^ p"
  have le: "\<bar>d\<bar> \<le> 1 / 2"
    unfolding d_def by (rule of_int_round_abs_le)
  have e: "of_int (round (abs x * 10 ^ p)) / 10 ^ p - abs x = d / 10 ^ p"
    by (simp add: d_def diff_divide_distrib)
  have "\<bar>d / 10 ^ p\<bar> = \<bar>d\<bar> / 10 ^ p" by simp
  also have "\<dots> \<le> 1 / 2 / 10 ^ p"
    using le by (intro divide_right_mono) simp_all
  finally show ?thesis unfolding e .
qed

text \<open>The specification's rounding on some numbers: a tie goes away from zero.\<close>

lemma spec_rounded_samples:
  "spec_rounded (17 / 2) 1 = ''8.5''"
  "spec_rounded (5 / 4) 1 = ''1.3''"
  "spec_rounded (- 5 / 2) 0 = ''-3''"
  "spec_rounded (1 / 1000) 2 = ''0.00''"
  "spec_rounded (- 987 / 100) 1 = ''-9.9''"
  by code_simp+

text \<open>
  Claim C1 says that the key is the described one at every non-negative precision. Above
  the largest digit count the engine accepts, \<^verbatim>\<open>toFixed\<close> throws and \<open>pathToHash\<close>
  returns no key: with an engine that accepts up to 100 digits, at precision 101.
\<close>

theorem fingerprint_every_precision_counterexample:
  "\<not> (\<forall>maxDigits ts p s pts. pathPoints s = Some pts \<and> pts \<noteq> [] \<longrightarrow>
         pathToHash maxDigits ts p (Some s) = Inr (spec_fingerprint p pts (closed_flag s))
         \<and> (\<forall>s'. pathPoints s' = Some pts \<and> closed_flag s' \<noteq> closed_flag s
                \<longrightarrow> pathToHash maxDigits ts p (Some s') \<noteq> pathToHash maxDigits ts p (Some s)))"
proof
  assume "\<forall>maxDigits ts p s pts. pathPoints s = Some pts \<and> pts \<noteq> [] \<longrightarrow>
         pathToHash maxDigits ts p (Some s) = Inr (spec_fingerprint p pts (closed_flag s))
         \<and> (\<forall>s'. pathPoints s' = Some pts \<and> closed_flag s' \<noteq> closed_flag s
                \<longrightarrow> pathToHash maxDigits ts p (Some s') \<noteq> pathToHash maxDigits ts p (Some s))"
  moreover have pts: "pathPoints shapeA = Some triangle \<and> triangle \<noteq> []"
    by (simp add: shapeA_def pathItem_def triangle_def)
  ultimately have "pathToHash 100 noExponent 101 (Some shapeA)
                   = Inr (spec_fingerprint 101 triangle (closed_flag shapeA))"
    by blast
  moreover have "pathToHash 100 noExponent 101 (Some shapeA) = Inl RangeError"
    using pts by (intro pathToHash_throws [of 100 101 shapeA triangle]) simp_all
  ultimately show False by simp
qed

text \<open>
  Claim C1, amended. For a shape with at least one control point and all coordinates
  below \<open>10^21\<close> in magnitude: at a precision the engine's \<^verbatim>\<open>toFixed\<close> accepts,
  \<open>pathToHash\<close> returns the key the specification describes, per point the six
  coordinates rounded to \<open>precision\<close> decimal digits and the kind tag, joined by commas,
  the tokens joined by semicolons in the original order, then the bar and the closed/open
  marker, and a shape with the same control points and the other value of \<open>closed\<close> has
  another key; at a precision above that, \<open>pathToHash\<close> throws a \<^verbatim>\<open>RangeError\<close>.
\<close>

theorem pathToHash_fingerprint:
  assumes "pathPoints s = Some pts" and "pts \<noteq> []" and "plain pts"
  shows "pathToHash maxDigits ts p (Some s) =
           (if p \<le> maxDigits then Inr (spec_fingerprint p pts (closed_flag s))
            else Inl RangeError)
       \<and> (p \<le> maxDigits \<longrightarrow>
            (\<forall>s'. pathPoints s' = Some pts \<and> closed_flag s' \<noteq> closed_flag s
                \<longrightarrow> pathToHash maxDigits ts p (Some s') \<noteq> pathToHash maxDigits ts p (Some s)))"
proof
  show "pathToHash maxDigits ts p (Some s) =
           (if p \<le> maxDigits then Inr (spec_fingerprint p pts (closed_flag s))
            else Inl RangeError)"
    using assms by (simp add: pathToHash_eq pointed_def pathKey_fingerprint)
next
  show "p \<le> maxDigits \<longrightarrow>
            (\<forall>s'. pathPoints s' = Some pts \<and> closed_flag s' \<noteq> closed_flag s
                \<longrightarrow> pathToHash maxDigits ts p (Some s') \<noteq> pathToHash maxDigits ts p (Some s))"
  proof (intro allI impI)
    fix s' assume le: "p \<le> maxDigits"
      and s': "pathPoints s' = Some pts \<and> closed_flag s' \<noteq> closed_flag s"
    have "pathKey ts p (Some s') \<noteq> pathKey ts p (Some s)"
      using s' assms(1,2) by (cases "closed_flag s") (simp_all add: pathKey_Some)
    then show "pathToHash maxDigits ts p (Some s') \<noteq> pathToHash maxDigits ts p (Some s)"
      using le by (simp add: pathToHash_in_range)
  qed
qed

theorem pathToHash_fingerprint_witness:
  "pathPoints shapeA = Some triangle \<and> triangle \<noteq> [] \<and> plain triangle
   \<and> closed_flag shapeA
   \<and> spec_fingerprint 1 triangle True
       = ''0.0,0.0,0.0,0.0,0.0,0.0,PointType.CORNER;10.0,0.0,10.0,0.0,10.0,0.0,PointType.CORNER;5.0,8.5,5.0,8.5,5.0,8.5,PointType.CORNER|closed''
   \<and> pathToHash 20 noExponent 1 (Some shapeA) = Inr (spec_fingerprint 1 triangle True)
   \<and> pathToHash 20 noExponent 21 (Some shapeA) = Inl RangeError
   \<and> pathToHash 20 noExponent 1 (Some (pathItem 2 triangle False))
       \<noteq> pathToHash 20 noExponent 1 (Some shapeA)"
proof -
  have h1: "pathPoints shapeA = Some triangle" by (simp add: shapeA_def pathItem_def)
  have h2: "triangle \<noteq> []" by (simp add: triangle_def)
  have h3: "plain triangle"
    by (simp add: plain_def plainPoint_def coordinates_def triangle_def corner_def)
  have c: "closed_flag shapeA" by (simp add: shapeA_def pathItem_def)
  have f: "spec_fingerprint 1 triangle True
       = ''0.0,0.0,0.0,0.0,0.0,0.0,PointType.CORNER;10.0,0.0,10.0,0.0,10.0,0.0,PointType.CORNER;5.0,8.5,5.0,8.5,5.0,8.5,PointType.CORNER|closed''"
    by code_simp
  have h4: "pathPoints (pathItem 2 triangle False) = Some triangle
            \<and> closed_flag (pathItem 2 triangle False) \<noteq> closed_flag shapeA"
    by (simp add: pathItem_def shapeA_def)
  note in_range = pathToHash_fingerprint [OF h1 h2 h3, of 20 noExponent 1]
  note beyond = pathToHash_fingerprint [OF h1 h2 h3, of 20 noExponent 21]
  from in_range c have eq: "pathToHash 20 noExponent 1 (Some shapeA) = Inr (spec_fingerprint 1 triangle True)"
    by simp
  from beyond have th: "pathToHash 20 noExponent 21 (Some shapeA) = Inl RangeError"
    by simp
  have le: "(1::nat) \<le> 20" by simp
  from in_range le
  have "\<forall>s'. pathPoints s' = Some triangle \<and> closed_flag s' \<noteq> closed_flag shapeA
          \<longrightarrow> pathToHash 20 noExponent 1 (Some s') \<noteq> pathToHash 20 noExponent 1 (Some shapeA)"
    by blast
  with h4 have ne: "pathToHash 20 noExponent 1 (Some (pathItem 2 triangle False))
       \<noteq> pathToHash 20 noExponent 1 (Some shapeA)"
    by blast
  from h1 h2 h3 c f eq th ne show ?thesis by blast
qed

subsection \<open>The fingerprint of a compound shape\<close>

lemma sort_map_mset_cong:
  "mset ys = mset xs \<Longrightarrow> sort (map f ys) = sort (map f (xs::'a list) :: string list)"
proof -
  assume "mset ys = mset xs"
  then have "mset (map f ys) = mset (map f xs)" by simp
  then show ?thesis
    by (metis properties_for_sort sorted_sort mset_sort)
qed

lemma order_matters:
  "pathKey ts p (Some (pathItem 1 [corner 0 0, smooth 0 0] False))
     \<noteq> pathKey ts p (Some (pathItem 1 [smooth 0 0, corner 0 0] False))"
  by (simp add: pathKey_Some [of _ "[corner 0 0, smooth 0 0]"]
      pathKey_Some [of _ "[smooth 0 0, corner 0 0]"]
      pathItem_def pointToken_unfold coordinates_def corner_def smooth_def)

text \<open>
  Claim C2. A compound shape with at least one sub-path and a copy whose sub-paths are a
  permutation of the original's have the same \<open>compoundPathToHash\<close>: the same key, or
  the same exception when \<^verbatim>\<open>toFixed\<close> refuses the precision. The key of a simple
  shape does depend on the order of its points: at every precision \<^verbatim>\<open>toFixed\<close> accepts
  there are two shapes with the same points in another order, the same \<open>closed\<close>, and
  different keys.
\<close>

theorem compoundPathToHash_permutation:
  assumes "pathItems c = Some xs" and "pathItems c' = Some ys" and "xs \<noteq> []"
    and "mset ys = mset xs"
  shows "compoundPathToHash maxDigits ts p (Some c') = compoundPathToHash maxDigits ts p (Some c)
       \<and> (p \<le> maxDigits \<longrightarrow>
            (\<exists>s s' pts pts'. pathPoints s = Some pts \<and> pathPoints s' = Some pts'
               \<and> mset pts' = mset pts \<and> closed_flag s' = closed_flag s
               \<and> pathToHash maxDigits ts p (Some s') \<noteq> pathToHash maxDigits ts p (Some s)))"
proof
  have ne: "ys \<noteq> []" using assms(3,4) by auto
  have "set ys = set xs" using assms(4) by (rule mset_eq_setD)
  then show "compoundPathToHash maxDigits ts p (Some c') = compoundPathToHash maxDigits ts p (Some c)"
    using assms ne by (simp add: compoundPathToHash_Some sort_map_mset_cong [OF assms(4)])
next
  let ?s = "pathItem 1 [corner 0 0, smooth 0 0] False"
  let ?s' = "pathItem 1 [smooth 0 0, corner 0 0] False"
  show "p \<le> maxDigits \<longrightarrow>
            (\<exists>s s' pts pts'. pathPoints s = Some pts \<and> pathPoints s' = Some pts'
               \<and> mset pts' = mset pts \<and> closed_flag s' = closed_flag s
               \<and> pathToHash maxDigits ts p (Some s') \<noteq> pathToHash maxDigits ts p (Some s))"
  proof
    assume le: "p \<le> maxDigits"
    have "pathPoints ?s = Some [corner 0 0, smooth 0 0] \<and> pathPoints ?s' = Some [smooth 0 0, corner 0 0]
        \<and> mset [smooth 0 0, corner 0 0] = mset [corner 0 0, smooth 0 0] \<and> closed_flag ?s' = closed_flag ?s
        \<and> pathToHash maxDigits ts p (Some ?s') \<noteq> pathToHash maxDigits ts p (Some ?s)"
      using order_matters [of ts p] le by (simp add: pathItem_def pathToHash_in_range)
    then show "\<exists>s s' pts pts'. pathPoints s = Some pts \<and> pathPoints s' = Some pts'
               \<and> mset pts' = mset pts \<and> closed_flag s' = closed_flag s
               \<and> pathToHash maxDigits ts p (Some s') \<noteq> pathToHash maxDigits ts p (Some s)"
      by blast
  qed
qed

theorem compoundPathToHash_permutation_witness:
  "pathItems (compoundPathItem 3 [ringA, ringB]) = Some [Some ringA, Some ringB]
   \<and> pathItems (compoundPathItem 4 [ringB, ringA]) = Some [Some ringB, Some ringA]
   \<and> [Some ringA, Some ringB] \<noteq> []
   \<and> mset [Some ringB, Some ringA] = mset [Some ringA, Some ringB]
   \<and> compoundPathToHash 20 noExponent 1 (Some (compoundPathItem 4 [ringB, ringA]))
       = compoundPathToHash 20 noExponent 1 (Some (compoundPathItem 3 [ringA, ringB]))
   \<and> compoundPathToHash 20 noExponent 1 (Some (compoundPathItem 3 [ringA, ringB]))
       = Inr ''0.0,0.0,0.0,0.0,0.0,0.0,PointType.CORNER;10.0,0.0,10.0,0.0,10.0,0.0,PointType.CORNER;5.0,8.5,5.0,8.5,5.0,8.5,PointType.CORNER|closed|2.0,2.0,2.0,2.0,2.0,2.0,PointType.CORNER;4.0,2.0,4.0,2.0,4.0,2.0,PointType.CORNER;3.0,4.0,3.0,4.0,3.0,4.0,PointType.CORNER|closed''
   \<and> (1::nat) \<le> 20
   \<and> (\<exists>s s' pts pts'. pathPoints s = Some pts \<and> pathPoints s' = Some pts'
          \<and> mset pts' = mset pts \<and> closed_flag s' = closed_flag s
          \<and> pathToHash 20 noExponent 1 (Some s') \<noteq> pathToHash 20 noExponent 1 (Some s))"
proof -
  have h1: "pathItems (compoundPathItem 3 [ringA, ringB]) = Some [Some ringA, Some ringB]"
    by (simp add: compoundPathItem_def)
  have h2: "pathItems (compoundPathItem 4 [ringB, ringA]) = Some [Some ringB, Some ringA]"
    by (simp add: compoundPathItem_def)
  have h3: "[Some ringA, Some ringB] \<noteq> []" by simp
  have h4: "mset [Some ringB, Some ringA] = mset [Some ringA, Some ringB]" by simp
  have le: "(1::nat) \<le> 20" by simp
  have k: "compoundPathToHash 20 noExponent 1 (Some (compoundPathItem 3 [ringA, ringB]))
       = Inr ''0.0,0.0,0.0,0.0,0.0,0.0,PointType.CORNER;10.0,0.0,10.0,0.0,10.0,0.0,PointType.CORNER;5.0,8.5,5.0,8.5,5.0,8.5,PointType.CORNER|closed|2.0,2.0,2.0,2.0,2.0,2.0,PointType.CORNER;4.0,2.0,4.0,2.0,4.0,2.0,PointType.CORNER;3.0,4.0,3.0,4.0,3.0,4.0,PointType.CORNER|closed''"
    by code_simp
  from compoundPathToHash_permutation [OF h1 h2 h3 h4, of 20 noExponent 1] h1 h2 h3 h4 le k
  show ?thesis by blast
qed

subsection \<open>Grouping and removal\<close>

lemma removeRest_append:
  "removeRest host (xs @ ys) st = removeRest host ys (removeRest host xs st)"
proof (induction xs arbitrary: st)
  case Nil
  show ?case by simp
next
  case (Cons x xs)
  obtain h n out where st: "st = (h, n, out)" by (cases st)
  show ?case
    by (cases "remove host x h") (auto simp: st Cons split: option.splits)
qed

lemma removeDuplicates_attempted:
  "removeDuplicates host groups st = removeRest host (attempted groups) st"
proof (induction groups arbitrary: st)
  case Nil
  show ?case by (simp add: attempted_def)
next
  case (Cons g groups)
  obtain k dups where g: "g = (k, dups)" by (cases g)
  have "attempted (g # groups) = drop 1 dups @ attempted groups"
    by (simp add: attempted_def g)
  then show ?case
    by (simp add: g Cons removeRest_append)
qed

lemma removeRest_outcomes:
  "removeRest host ds (h, n, out) =
     (snd (attemptAll host ds h), n + successes (fst (attemptAll host ds h)),
      out @ failures (fst (attemptAll host ds h)))"
proof (induction ds arbitrary: h n out)
  case Nil
  show ?case by (simp add: successes_def failures_def)
next
  case (Cons d ds)
  obtain r h' where r: "remove host d h = (r, h')" by (cases "remove host d h")
  obtain rs h'' where rs: "attemptAll host ds h' = (rs, h'')" by (cases "attemptAll host ds h'")
  show ?case
    using Cons [of h'] by (cases r) (simp_all add: r rs successes_def failures_def)
qed

lemma removeDuplicates_outcomes:
  "removeDuplicates host groups (h, n, out) =
     (snd (attemptAll host (attempted groups) h),
      n + successes (fst (attemptAll host (attempted groups) h)),
      out @ failures (fst (attemptAll host (attempted groups) h)))"
  by (simp add: removeDuplicates_attempted removeRest_outcomes)

lemma remove_recording:
  "remove (recording host) x (h, cs) = (fst (remove host x h), (snd (remove host x h), cs @ [x]))"
  by (simp add: recording_def split: prod.splits)

lemma attemptAll_recording:
  "attemptAll (recording host) ds (h, cs) =
     (fst (attemptAll host ds h), (snd (attemptAll host ds h), cs @ ds))"
proof (induction ds arbitrary: h cs)
  case Nil
  show ?case by simp
next
  case (Cons d ds)
  show ?case
    by (simp add: remove_recording Cons split: prod.splits)
qed

lemma removeRest_recording:
  "removeRest (recording host) ds ((h, cs), n, out) =
     ((snd (attemptAll host ds h), cs @ ds), n + successes (fst (attemptAll host ds h)),
      out @ failures (fst (attemptAll host ds h)))"
  by (simp add: removeRest_outcomes attemptAll_recording)

lemma removeDuplicates_recording:
  "removeDuplicates (recording host) groups ((h, cs), n, out) =
     ((snd (attemptAll host (attempted groups) h), cs @ attempted groups),
      n + successes (fst (attemptAll host (attempted groups) h)),
      out @ failures (fst (attemptAll host (attempted groups) h)))"
  by (simp add: removeDuplicates_attempted removeRest_recording)

lemma recording_simps:
  "documentsLength (recording host) (h, cs) = documentsLength host h"
  "layers (recording host) (h, cs) = layers host h"
  "selection (recording host) (h, cs) = selection host h"
  by (simp_all add: recording_def)

lemma candidates_recording:
  "candidates (recording host) n (h, cs) = candidates host n h"
  by (simp add: candidates_def recording_simps split: option.splits)

text \<open>
  The grouping loop throws exactly when the hash function throws on one of the paths.
  When it returns, the object holds, under every key that is not empty, the paths with
  that key in the order they were visited.
\<close>

lemma groupByHash_Inl:
  "groupByHash f paths obj = Inl e \<Longrightarrow> \<exists>x \<in> set paths. f (Some x) = Inl e"
proof (induction paths arbitrary: obj)
  case Nil
  then show ?case by simp
next
  case (Cons x xs)
  show ?case
  proof (cases "f (Some x)")
    case (Inl e')
    then show ?thesis using Cons.prems by simp
  next
    case (Inr h)
    then have "\<exists>obj'. groupByHash f xs obj' = Inl e"
      using Cons.prems by (auto split: if_splits option.splits)
    then show ?thesis using Cons.IH by auto
  qed
qed

lemma groupByHash_returns:
  "\<forall>x \<in> set paths. \<exists>k. f (Some x) = Inr k \<Longrightarrow> \<exists>G. groupByHash f paths obj = Inr G"
proof (cases "groupByHash f paths obj")
  case (Inl e)
  assume "\<forall>x \<in> set paths. \<exists>k. f (Some x) = Inr k"
  then show ?thesis using groupByHash_Inl [OF Inl] by auto
next
  case (Inr G)
  then show ?thesis by blast
qed

lemma groupByHash_throws:
  "x \<in> set paths \<Longrightarrow> f (Some x) = Inl e \<Longrightarrow> \<exists>e'. groupByHash f paths obj = Inl e'"
proof (induction paths arbitrary: obj)
  case Nil
  then show ?case by simp
next
  case (Cons y ys)
  show ?case
  proof (cases "f (Some y)")
    case (Inl e')
    then show ?thesis by simp
  next
    case (Inr h)
    then have "x \<in> set ys" using Cons.prems by auto
    then show ?thesis using Inr Cons.IH Cons.prems(2) by (auto split: option.splits)
  qed
qed

lemma map_of_groupByHash:
  "groupByHash f paths obj = Inr G \<Longrightarrow> k \<noteq> [] \<Longrightarrow>
   map_of G k =
     (case map_of obj k of
        None \<Rightarrow> (if filter (\<lambda>x. f (Some x) = Inr k) paths = [] then None
                  else Some (filter (\<lambda>x. f (Some x) = Inr k) paths))
      | Some d \<Rightarrow> Some (d @ filter (\<lambda>x. f (Some x) = Inr k) paths))"
proof (induction paths arbitrary: obj)
  case Nil
  then show ?case by (auto split: option.splits)
next
  case (Cons x xs)
  show ?case
  proof (cases "f (Some x)")
    case (Inl e)
    then show ?thesis using Cons.prems by simp
  next
    case (Inr h)
    show ?thesis
    proof (cases "h = []")
      case True
      then have "groupByHash f xs obj = Inr G" using Cons.prems(1) Inr by simp
      from Cons.IH [OF this Cons.prems(2)] show ?thesis
        using True Inr Cons.prems(2) by (simp split: option.splits)
    next
      case False
      show ?thesis
      proof (cases "map_of obj h")
        case None
        then have "groupByHash f xs (AList.update h [x] obj) = Inr G"
          using Cons.prems(1) Inr False by simp
        from Cons.IH [OF this Cons.prems(2)] show ?thesis
          using None Inr by (auto simp: update_conv' split: option.splits)
      next
        case (Some d)
        then have "groupByHash f xs (AList.update h (d @ [x]) obj) = Inr G"
          using Cons.prems(1) Inr False by simp
        from Cons.IH [OF this Cons.prems(2)] show ?thesis
          using Some Inr by (auto simp: update_conv' split: option.splits)
      qed
    qed
  qed
qed

lemma map_of_groupByHash_empty:
  "groupByHash f paths obj = Inr G \<Longrightarrow> map_of G [] = map_of obj []"
proof (induction paths arbitrary: obj)
  case Nil
  then show ?case by simp
next
  case (Cons x xs)
  show ?case
  proof (cases "f (Some x)")
    case (Inl e)
    then show ?thesis using Cons.prems by simp
  next
    case (Inr h)
    show ?thesis
    proof (cases "h = []")
      case True
      then show ?thesis using Cons Inr by simp
    next
      case False
      then obtain obj' where g: "groupByHash f xs obj' = Inr G"
        and o: "obj' = AList.update h [x] obj \<or> (\<exists>d. obj' = AList.update h (d @ [x]) obj)"
        using Cons.prems Inr by (cases "map_of obj h") auto
      from o have "map_of obj' [] = map_of obj []" using False by (auto simp: update_conv')
      then show ?thesis using Cons.IH [OF g] by simp
    qed
  qed
qed

lemma distinct_groupByHash:
  "groupByHash f paths obj = Inr G \<Longrightarrow> distinct (map fst obj) \<Longrightarrow> distinct (map fst G)"
proof (induction paths arbitrary: obj)
  case Nil
  then show ?case by simp
next
  case (Cons x xs)
  show ?case
  proof (cases "f (Some x)")
    case (Inl e)
    then show ?thesis using Cons.prems by simp
  next
    case (Inr h)
    then obtain obj' where g: "groupByHash f xs obj' = Inr G"
      and o: "obj' = obj \<or> (\<exists>v. obj' = AList.update h v obj)"
      using Cons.prems(1) by (cases "h = []"; cases "map_of obj h") auto
    from o have "distinct (map fst obj')" using Cons.prems(2) by (auto simp: distinct_update)
    with g show ?thesis by (rule Cons.IH)
  qed
qed

lemma groupByHash_member:
  assumes "groupByHash f paths [] = Inr G"
  shows "(k, g) \<in> set G \<longleftrightarrow>
     k \<noteq> [] \<and> g \<noteq> [] \<and> g = filter (\<lambda>x. f (Some x) = Inr k) paths"
proof -
  have d: "distinct (map fst G)"
    using assms by (rule distinct_groupByHash) simp
  have "(k, g) \<in> set G \<longleftrightarrow> map_of G k = Some g"
    using d by simp
  then show ?thesis
    using map_of_groupByHash [OF assms, of k] map_of_groupByHash_empty [OF assms]
    by (cases "k = []") auto
qed

lemma set_attempted:
  "set (attempted groups) = (\<Union>(k, g) \<in> set groups. set (drop 1 g))"
  by (auto simp: attempted_def)

lemma in_tl_distinct: "distinct g \<Longrightarrow> x \<in> set (tl g) \<longleftrightarrow> x \<in> set g \<and> x \<noteq> hd g"
  by (cases g) auto

lemma attempted_subset:
  assumes "groupByHash f paths [] = Inr G"
  shows "set (attempted G) \<subseteq> set paths"
proof
  fix x assume "x \<in> set (attempted G)"
  then obtain k g where kg: "(k, g) \<in> set G" and x: "x \<in> set (drop 1 g)"
    by (auto simp: set_attempted)
  from x have "x \<in> set g" by (rule in_set_dropD)
  then show "x \<in> set paths" using kg by (auto simp: groupByHash_member [OF assms])
qed

lemma groupByHash_key:
  assumes "groupByHash f paths [] = Inr G" and "(k, g) \<in> set G" and "x \<in> set g"
  shows "k \<noteq> [] \<and> f (Some x) = Inr k"
  using assms(2,3) by (auto simp: groupByHash_member [OF assms(1)])

lemma attempted_key:
  assumes "groupByHash f paths [] = Inr G" and "x \<in> set (attempted G)"
  shows "\<exists>k. k \<noteq> [] \<and> f (Some x) = Inr k"
proof -
  from assms(2) obtain k g where kg: "(k, g) \<in> set G" and x: "x \<in> set (drop 1 g)"
    by (auto simp: set_attempted)
  from x have "x \<in> set g" by (rule in_set_dropD)
  with assms(1) kg show ?thesis using groupByHash_key by blast
qed

text \<open>What a traversal collects has the type name it was asked for.\<close>

lemma collectPaths_from_typename:
  "\<forall>x \<in> set (collectPaths_from c paths t). x \<in> set paths \<or> typename x = t"
  and collectPaths_loop_typename:
  "\<forall>x \<in> set (collectPaths_loop items ps t). x \<in> set ps \<or> typename x = t"
proof (induction c paths t and items ps t rule: collectPaths_from_collectPaths_loop.induct)
  case (1 i tn lk hi gu cl pts cf subs paths pageItemTypename)
  show ?case by simp
next
  case (2 i tn lk hi gu cl pts cf subs items paths pageItemTypename)
  then show ?case by simp
next
  case (3 paths pageItemTypename)
  show ?case by simp
next
  case (4 rest paths pageItemTypename)
  then show ?case by simp
next
  case (5 pageItem rest paths pageItemTypename)
  show ?case
  proof (cases "locked pageItem \<or> hidden pageItem \<or> guides pageItem \<or> clipping pageItem")
    case True
    then show ?thesis using 5(1) by simp
  next
    case False
    note nf = False
    show ?thesis
    proof (cases "typename pageItem = pageItemTypename")
      case True
      then show ?thesis using nf 5(2) [OF nf True refl refl]
        by (auto simp: Let_def split: if_splits)
    next
      case False
      note nt = False
      show ?thesis
      proof (cases "isContainerType (typename pageItem)")
        case True
        then show ?thesis using nf nt 5(3) [OF nf nt True] 5(4) [OF nf nt True]
          by auto
      next
        case False
        then show ?thesis using nf nt 5(5) [OF nf nt False] by simp
      qed
    qed
  qed
qed

lemma collectPaths_typename:
  "x \<in> set (collectPaths c paths t) \<Longrightarrow>
   x \<in> set paths \<or> typename x = (case t of None \<Rightarrow> ''PathItem'' | Some s \<Rightarrow> s)"
  using collectPaths_from_typename by (cases c) (auto simp: collectPaths_def)

lemma compoundPaths_loop_typename:
  "x \<in> set (compoundPaths_loop ls acc) \<Longrightarrow> x \<in> set acc \<or> typename x = ''CompoundPathItem''"
proof (induction ls arbitrary: acc)
  case Nil
  then show ?case by simp
next
  case (Cons l ls)
  from Cons.IH [of "collectCompoundPaths l acc"] Cons.prems
  have "x \<in> set (collectCompoundPaths l acc) \<or> typename x = ''CompoundPathItem''" by simp
  then show ?case
    using collectPaths_typename [of x l acc "Some ''CompoundPathItem''"]
    by (auto simp: collectCompoundPaths_def)
qed

lemma paths_loop_typename:
  "x \<in> set (paths_loop ls acc) \<Longrightarrow> x \<in> set acc \<or> typename x = ''PathItem''"
proof (induction ls arbitrary: acc)
  case Nil
  then show ?case by simp
next
  case (Cons l ls)
  from Cons.IH [of "collectPaths l acc None"] Cons.prems
  have "x \<in> set (collectPaths l acc None) \<or> typename x = ''PathItem''" by simp
  then show ?case
    using collectPaths_typename [of x l acc None] by auto
qed

lemma collectSelection_typename:
  "x \<in> set (collectSelection sel acc) \<Longrightarrow> x \<in> set acc \<or> typename x = ''PathItem''"
proof (induction sel acc rule: collectSelection.induct)
  case (1 paths)
  then show ?case by simp
next
  case (2 rest paths)
  then show ?case by simp
next
  case (3 selectionItem rest paths)
  then show ?case
    using collectPaths_typename [of x "Some selectionItem" paths None]
    by (auto split: if_splits)
qed

lemma candidates_typename:
  "x \<in> set (candidates host n h) \<Longrightarrow> typename x = ''PathItem''"
  using paths_loop_typename [of x _ "[]"] collectSelection_typename [of x _ "[]"]
  by (auto simp: candidates_def split: option.splits if_splits)
subsection \<open>The run as a whole\<close>

text \<open>
  \<open>main\<close> with a document open, phase by phase. An exception while the compound paths
  are hashed ends the run before anything is removed. Otherwise \<open>r1\<close> are the outcomes of
  the removals among the compound paths and the candidates are read from the state they
  leave; an exception while the candidates are hashed ends the run there, and otherwise
  \<open>r2\<close> are the outcomes of the removals among the candidates.
\<close>

lemma main_throws_first:
  assumes "documentsLength host h \<noteq> 0"
    and "groupByHash (compoundPathToHash L ts p) (compoundPaths_loop (layers host h) []) [] = Inl e"
  shows "main host L ts p h = \<lparr>hostState = h, console = [], alerts = [], thrown = Some e\<rparr>"
  using assms by (simp add: main_def)

lemma main_phases:
  assumes "documentsLength host h \<noteq> 0"
    and "compoundPaths = compoundPaths_loop (layers host h) []"
    and "groupByHash (compoundPathToHash L ts p) compoundPaths [] = Inr G1"
    and "r1 = attemptAll host (attempted G1) h"
    and "paths = candidates host (length (layers host h)) (snd r1)"
  shows "main host L ts p h =
     (if paths = [] \<and> compoundPaths = []
      then \<lparr>hostState = snd r1, console = failures (fst r1), alerts = [nothingEligible],
            thrown = None\<rparr>
      else
        (case groupByHash (pathToHash L ts p) paths [] of
           Inl e \<Rightarrow> \<lparr>hostState = snd r1, console = failures (fst r1), alerts = [], thrown = Some e\<rparr>
         | Inr G2 \<Rightarrow>
             \<lparr>hostState = snd (attemptAll host (attempted G2) (snd r1)),
              console = failures (fst r1) @ failures (fst (attemptAll host (attempted G2) (snd r1))),
              alerts = [summary (successes (fst (attemptAll host (attempted G2) (snd r1))))
                          (successes (fst r1))],
              thrown = None\<rparr>))"
proof -
  have g: "groupByHash (compoundPathToHash L ts p) (compoundPaths_loop (layers host h) []) [] = Inr G1"
    using assms(2,3) by simp
  show ?thesis
    using assms(1) g unfolding assms(2,4,5)
    by (simp add: main_def removeDuplicates_outcomes Let_def split: sum.splits
        split del: if_split cong: if_cong)
qed

text \<open>
  The calls of \<^verbatim>\<open>remove()\<close> during a run are the members after the first of every group
  of compound paths, then of every group of candidates.
\<close>

lemma main_calls:
  assumes "documentsLength host h \<noteq> 0"
    and "compoundPaths = compoundPaths_loop (layers host h) []"
    and "groupByHash (compoundPathToHash L ts p) compoundPaths [] = Inr G1"
    and "h1 = snd (attemptAll host (attempted G1) h)"
    and "paths = candidates host (length (layers host h)) h1"
  shows "snd (hostState (main (recording host) L ts p (h, []))) =
     attempted G1
     @ (case groupByHash (pathToHash L ts p) paths [] of Inl e \<Rightarrow> [] | Inr G2 \<Rightarrow> attempted G2)"
proof -
  let ?r1 = "attemptAll (recording host) (attempted G1) (h, [])"
  have a1: "documentsLength (recording host) (h, []) \<noteq> 0"
    using assms(1) by (simp add: recording_simps)
  have a2: "compoundPaths = compoundPaths_loop (layers (recording host) (h, [])) []"
    using assms(2) by (simp add: recording_simps)
  have s1: "snd ?r1 = (h1, attempted G1)"
    using assms(4) by (simp add: attemptAll_recording)
  have a4: "paths = candidates (recording host) (length (layers (recording host) (h, []))) (snd ?r1)"
    unfolding s1 using assms(5) by (simp add: candidates_recording recording_simps)
  note m = main_phases [OF a1 a2 assms(3) refl a4]
  show ?thesis
  proof (cases "paths = [] \<and> compoundPaths = []")
    case True
    have e: "attempted ([] :: (string \<times> pageItem list) list) = []" by (simp add: attempted_def)
    show ?thesis using True unfolding m by (simp add: s1 e)
  next
    case False
    show ?thesis
    proof (cases "groupByHash (pathToHash L ts p) paths []")
      case (Inl e)
      then show ?thesis using False unfolding m by (auto simp: s1)
    next
      case (Inr G2)
      have "snd (snd (attemptAll (recording host) (attempted G2) (snd ?r1))) = attempted G1 @ attempted G2"
        unfolding s1 by (simp add: attemptAll_recording)
      then show ?thesis using False Inr unfolding m by auto
    qed
  qed
qed

lemma main_calls_closed:
  "documentsLength host h = 0 \<Longrightarrow> snd (hostState (main (recording host) L ts p (h, []))) = []"
  by (simp add: main_def recording_simps)

lemma main_calls_thrown_first:
  assumes "documentsLength host h \<noteq> 0"
    and "groupByHash (compoundPathToHash L ts p) (compoundPaths_loop (layers host h) []) [] = Inl e"
  shows "snd (hostState (main (recording host) L ts p (h, []))) = []"
proof -
  have "main (recording host) L ts p (h, [])
        = \<lparr>hostState = (h, []), console = [], alerts = [], thrown = Some e\<rparr>"
    using assms by (intro main_throws_first) (simp_all add: recording_simps)
  then show ?thesis by simp
qed

text \<open>
  So \<^verbatim>\<open>remove()\<close> is only ever called on a collected compound path or on a candidate,
  and on none with an empty key.
\<close>

lemma main_calls_member:
  assumes "x \<in> set (snd (hostState (main (recording host) L ts p (h, []))))"
  shows "typename x = ''CompoundPathItem''
           \<and> (\<exists>k. k \<noteq> [] \<and> compoundPathToHash L ts p (Some x) = Inr k)
       \<or> typename x = ''PathItem'' \<and> (\<exists>k. k \<noteq> [] \<and> pathToHash L ts p (Some x) = Inr k)"
proof (cases "documentsLength host h = 0")
  case True
  then show ?thesis using assms by (simp add: main_calls_closed)
next
  case False
  define compoundPaths where "compoundPaths = compoundPaths_loop (layers host h) []"
  show ?thesis
  proof (cases "groupByHash (compoundPathToHash L ts p) compoundPaths []")
    case (Inl e)
    then show ?thesis
      using assms main_calls_thrown_first [OF False, of L ts p e] by (simp add: compoundPaths_def)
  next
    case (Inr G1)
    define h1 where "h1 = snd (attemptAll host (attempted G1) h)"
    define paths where "paths = candidates host (length (layers host h)) h1"
    note c = main_calls [OF False compoundPaths_def Inr h1_def paths_def]
    have first: ?thesis if x: "x \<in> set (attempted G1)"
    proof -
      have "x \<in> set compoundPaths" using attempted_subset [OF Inr] x by blast
      then have "typename x = ''CompoundPathItem''"
        unfolding compoundPaths_def using compoundPaths_loop_typename [of x _ "[]"] by simp
      then show ?thesis using attempted_key [OF Inr x] by simp
    qed
    show ?thesis
    proof (cases "groupByHash (pathToHash L ts p) paths []")
      case (Inl e)
      then have "x \<in> set (attempted G1)" using assms unfolding c by simp
      then show ?thesis by (rule first)
    next
      case (Inr G2)
      then have "x \<in> set (attempted G1) \<or> x \<in> set (attempted G2)" using assms unfolding c by simp
      then show ?thesis
      proof
        assume "x \<in> set (attempted G1)"
        then show ?thesis by (rule first)
      next
        assume x: "x \<in> set (attempted G2)"
        then have "x \<in> set paths" using attempted_subset [OF Inr] by blast
        then have "typename x = ''PathItem''"
          unfolding paths_def by (rule candidates_typename)
        then show ?thesis using attempted_key [OF Inr x] by simp
      qed
    qed
  qed
qed

text \<open>Recording the calls changes nothing else.\<close>

lemma main_recording:
  "fst (hostState (main (recording host) L ts p (h, cs))) = hostState (main host L ts p h)
   \<and> console (main (recording host) L ts p (h, cs)) = console (main host L ts p h)
   \<and> alerts (main (recording host) L ts p (h, cs)) = alerts (main host L ts p h)
   \<and> thrown (main (recording host) L ts p (h, cs)) = thrown (main host L ts p h)"
proof (cases "documentsLength host h = 0")
  case True
  then show ?thesis by (simp add: main_def recording_simps)
next
  case False
  define cps where "cps = compoundPaths_loop (layers host h) []"
  have a1: "documentsLength (recording host) (h, cs) \<noteq> 0"
    using False by (simp add: recording_simps)
  have a2: "cps = compoundPaths_loop (layers (recording host) (h, cs)) []"
    by (simp add: recording_simps cps_def)
  show ?thesis
  proof (cases "groupByHash (compoundPathToHash L ts p) cps []")
    case (Inl e)
    have "main host L ts p h = \<lparr>hostState = h, console = [], alerts = [], thrown = Some e\<rparr>"
      using False Inl unfolding cps_def by (rule main_throws_first)
    moreover have "main (recording host) L ts p (h, cs)
                   = \<lparr>hostState = (h, cs), console = [], alerts = [], thrown = Some e\<rparr>"
      using a1 Inl unfolding a2 by (rule main_throws_first)
    ultimately show ?thesis by simp
  next
    case (Inr G1)
    define r1 where "r1 = attemptAll host (attempted G1) h"
    define paths where "paths = candidates host (length (layers host h)) (snd r1)"
    define r1' where "r1' = attemptAll (recording host) (attempted G1) (h, cs)"
    have s1: "r1' = (fst r1, (snd r1, cs @ attempted G1))"
      by (simp add: attemptAll_recording r1'_def r1_def)
    have a4: "paths = candidates (recording host) (length (layers (recording host) (h, cs))) (snd r1')"
      unfolding s1 by (simp add: candidates_recording recording_simps paths_def)
    note m' = main_phases [OF a1 a2 Inr r1'_def a4]
    note m = main_phases [OF False cps_def Inr r1_def paths_def]
    show ?thesis
    proof (cases "groupByHash (pathToHash L ts p) paths []")
      case (Inl e)
      then show ?thesis unfolding m m' s1 by simp
    next
      case (Inr G2)
      define r2 where "r2 = attemptAll host (attempted G2) (snd r1)"
      have s2: "attemptAll (recording host) (attempted G2) (snd r1, cs @ attempted G1)
                = (fst r2, (snd r2, (cs @ attempted G1) @ attempted G2))"
        by (simp add: attemptAll_recording r2_def)
      show ?thesis unfolding m m' s1 using Inr s2 by (simp add: r2_def)
    qed
  qed
qed

subsection \<open>First seen, first kept\<close>

text \<open>
  Within one phase: the group of a non-empty key is the list of the candidates with that
  key, in collection order. When its members are distinct objects, its first member is
  not among the members to remove, and all its other members are.
\<close>

lemma group_first_retained:
  assumes "groupByHash hashOf paths [] = Inr G" and "k \<noteq> []"
    and "dups = filter (\<lambda>x. hashOf (Some x) = Inr k) paths" and "length dups > 1"
    and "distinct dups"
  shows "(k, dups) \<in> set G"
    and "hd dups \<notin> set (attempted G)"
    and "set (tl dups) \<subseteq> set (attempted G)"
    and "hd dups \<in> set paths"
proof -
  have ne: "dups \<noteq> []" using assms(4) by auto
  show in_G: "(k, dups) \<in> set G"
    using assms(2,3) ne by (simp add: groupByHash_member [OF assms(1)])
  have hk: "\<And>x. x \<in> set dups \<Longrightarrow> hashOf (Some x) = Inr k" using assms(3) by simp
  have sub: "set dups \<subseteq> set paths" using assms(3) by auto
  have hdin: "hd dups \<in> set dups" using ne by simp
  show "hd dups \<in> set paths" using hdin sub by blast
  show "hd dups \<notin> set (attempted G)"
  proof
    assume "hd dups \<in> set (attempted G)"
    then obtain k' g where kg: "(k', g) \<in> set G" and x: "hd dups \<in> set (drop 1 g)"
      by (auto simp: set_attempted)
    from x have "hd dups \<in> set g" by (rule in_set_dropD)
    with kg have "hashOf (Some (hd dups)) = Inr k'"
      using groupByHash_key [OF assms(1)] by blast
    then have "k' = k" using hk [OF hdin] by simp
    then have "g = dups" using kg assms(3) by (simp add: groupByHash_member [OF assms(1)])
    then have "hd dups \<in> set (tl dups)" using x by (simp add: drop_Suc)
    then show False using in_tl_distinct [OF assms(5)] by simp
  qed
  show "set (tl dups) \<subseteq> set (attempted G)"
  proof
    fix x assume "x \<in> set (tl dups)"
    then have "x \<in> set (drop 1 dups)" by (simp add: drop_Suc)
    then show "x \<in> set (attempted G)" using in_G by (auto simp: set_attempted)
  qed
qed

text \<open>
  In a run of \<open>main\<close> in which no hash function throws: \<^verbatim>\<open>remove()\<close> is never called on
  the first member of a group of distinct objects and is called on every other member.
\<close>

lemma distinct_group_first_kept:
  assumes "documentsLength host h \<noteq> 0"
    and "compoundPaths = compoundPaths_loop (layers host h) []"
    and "groupByHash (compoundPathToHash L ts p) compoundPaths [] = Inr G1"
    and "h1 = snd (attemptAll host (attempted G1) h)"
    and "paths = candidates host (length (layers host h)) h1"
    and "groupByHash (pathToHash L ts p) paths [] = Inr G2"
    and "k \<noteq> []"
    and "dups = filter (\<lambda>x. compoundPathToHash L ts p (Some x) = Inr k) compoundPaths
         \<or> dups = filter (\<lambda>x. pathToHash L ts p (Some x) = Inr k) paths"
    and "length dups > 1" and "distinct dups"
  shows "hd dups \<notin> set (snd (hostState (main (recording host) L ts p (h, []))))
       \<and> set (tl dups) \<subseteq> set (snd (hostState (main (recording host) L ts p (h, []))))"
proof -
  have c: "snd (hostState (main (recording host) L ts p (h, []))) = attempted G1 @ attempted G2"
    using main_calls [OF assms(1-5)] assms(6) by simp
  have t1: "\<And>x. x \<in> set compoundPaths \<Longrightarrow> typename x = ''CompoundPathItem''"
    using compoundPaths_loop_typename [of _ _ "[]"] assms(2) by auto
  have t2: "\<And>x. x \<in> set paths \<Longrightarrow> typename x = ''PathItem''"
    unfolding assms(5) by (rule candidates_typename)
  have s1: "set (attempted G1) \<subseteq> set compoundPaths" using assms(3) by (rule attempted_subset)
  have s2: "set (attempted G2) \<subseteq> set paths" using assms(6) by (rule attempted_subset)
  from assms(8) show ?thesis
  proof
    assume d: "dups = filter (\<lambda>x. compoundPathToHash L ts p (Some x) = Inr k) compoundPaths"
    note g = group_first_retained [OF assms(3) assms(7) d assms(9) assms(10)]
    have "typename (hd dups) = ''CompoundPathItem''" using g(4) t1 by blast
    then have "hd dups \<notin> set (attempted G2)" using s2 t2 by fastforce
    then show ?thesis unfolding c using g(2,3) by auto
  next
    assume d: "dups = filter (\<lambda>x. pathToHash L ts p (Some x) = Inr k) paths"
    note g = group_first_retained [OF assms(6) assms(7) d assms(9) assms(10)]
    have "typename (hd dups) = ''PathItem''" using g(4) t2 by blast
    then have "hd dups \<notin> set (attempted G1)" using s1 t1 by fastforce
    then show ?thesis unfolding c using g(2,3) by auto
  qed
qed

text \<open>
  Three identical shapes collected as A, B, C: \<^verbatim>\<open>remove()\<close> is called on B and on C, and
  only A is left in the layer.
\<close>

lemma scenario_first_seen:
  "candidates illustrator 1 threeShapes = [shapeA, shapeB, shapeC]"
  "snd (hostState (main (recording illustrator) 20 noExponent 1 (threeShapes, []))) = [shapeB, shapeC]"
  "main illustrator 20 noExponent 1 threeShapes =
     \<lparr>hostState = threeShapes\<lparr>docLayers := [Some (layer 10 [shapeA])]\<rparr>, console = [],
      alerts = [''Removed 2 duplicate path items, 0 duplicate compound paths!''],
      thrown = None\<rparr>"
  by code_simp+


subsection \<open>Shapes without geometry\<close>

text \<open>
  Claim C5. A path with zero control points and a compound path with zero sub-paths have
  the empty key, at every precision; such an item is a member of no group, whatever the
  other candidates are, and \<open>main\<close> never calls \<^verbatim>\<open>remove()\<close> on it.
\<close>

theorem empty_geometry_skipped:
  assumes "typename s = ''PathItem''" and "pathPoints s = Some []"
    and "typename c = ''CompoundPathItem''" and "pathItems c = Some []"
  shows "pathToHash maxDigits ts p (Some s) = Inr []
       \<and> compoundPathToHash maxDigits ts p (Some c) = Inr []
       \<and> (\<forall>G. groupByHash (pathToHash maxDigits ts p) paths [] = Inr G
              \<longrightarrow> (\<forall>(k, g) \<in> set G. s \<notin> set g))
       \<and> (\<forall>G. groupByHash (compoundPathToHash maxDigits ts p) compoundPaths [] = Inr G
              \<longrightarrow> (\<forall>(k, g) \<in> set G. c \<notin> set g))
       \<and> s \<notin> set (snd (hostState (main (recording host) maxDigits ts p (h, []))))
       \<and> c \<notin> set (snd (hostState (main (recording host) maxDigits ts p (h, []))))"
proof -
  have hs: "pathToHash maxDigits ts p (Some s) = Inr []"
    using assms(2) by (simp add: pathToHash_def)
  have hc: "compoundPathToHash maxDigits ts p (Some c) = Inr []"
    using assms(4) by (simp add: compoundPathToHash_def)
  have g1: "\<forall>G. groupByHash (pathToHash maxDigits ts p) paths [] = Inr G
              \<longrightarrow> (\<forall>(k, g) \<in> set G. s \<notin> set g)"
    using hs groupByHash_key [of "pathToHash maxDigits ts p" paths _ _ _ s] by fastforce
  have g2: "\<forall>G. groupByHash (compoundPathToHash maxDigits ts p) compoundPaths [] = Inr G
              \<longrightarrow> (\<forall>(k, g) \<in> set G. c \<notin> set g)"
    using hc groupByHash_key [of "compoundPathToHash maxDigits ts p" compoundPaths _ _ _ c]
    by fastforce
  have c1: "s \<notin> set (snd (hostState (main (recording host) maxDigits ts p (h, []))))"
    using main_calls_member [of s host maxDigits ts p h] hs assms(1) by auto
  have c2: "c \<notin> set (snd (hostState (main (recording host) maxDigits ts p (h, []))))"
    using main_calls_member [of c host maxDigits ts p h] hc assms(3) by auto
  from hs hc g1 g2 c1 c2 show ?thesis by blast
qed

theorem empty_geometry_skipped_witness:
  "typename emptyPathA = ''PathItem'' \<and> pathPoints emptyPathA = Some []
   \<and> typename emptyCompoundA = ''CompoundPathItem'' \<and> pathItems emptyCompoundA = Some []
   \<and> pathToHash 20 noExponent 1 (Some emptyPathA) = Inr []
   \<and> compoundPathToHash 20 noExponent 1 (Some emptyCompoundA) = Inr []
   \<and> groupByHash (pathToHash 20 noExponent 1) [emptyPathA, shapeA, emptyPathB, shapeB] []
       = Inr [(''0.0,0.0,0.0,0.0,0.0,0.0,PointType.CORNER;10.0,0.0,10.0,0.0,10.0,0.0,PointType.CORNER;5.0,8.5,5.0,8.5,5.0,8.5,PointType.CORNER|closed'',
               [shapeA, shapeB])]
   \<and> emptyPathA \<notin> set [shapeA, shapeB]
   \<and> groupByHash (compoundPathToHash 20 noExponent 1)
         [emptyCompoundA, pointlessCompoundA, emptyCompoundB, pointlessCompoundB] []
       = Inr [(''|'', [pointlessCompoundA, pointlessCompoundB])]
   \<and> emptyCompoundA \<notin> set [pointlessCompoundA, pointlessCompoundB]
   \<and> candidates illustrator 1 emptyShapes = [emptyPathA, emptyPathB]
   \<and> emptyPathA \<notin> set (snd (hostState (main (recording illustrator) 20 noExponent 1 (emptyShapes, []))))
   \<and> emptyCompoundA \<notin> set (snd (hostState (main (recording illustrator) 20 noExponent 1 (emptyShapes, []))))"
proof -
  have h1: "typename emptyPathA = ''PathItem''" by (simp add: emptyPathA_def pathItem_def)
  have h2: "pathPoints emptyPathA = Some []" by (simp add: emptyPathA_def pathItem_def)
  have h3: "typename emptyCompoundA = ''CompoundPathItem''"
    by (simp add: emptyCompoundA_def compoundPathItem_def)
  have h4: "pathItems emptyCompoundA = Some []" by (simp add: emptyCompoundA_def compoundPathItem_def)
  have h5: "candidates illustrator 1 emptyShapes = [emptyPathA, emptyPathB]" by code_simp
  have h6: "groupByHash (pathToHash 20 noExponent 1) [emptyPathA, shapeA, emptyPathB, shapeB] []
       = Inr [(''0.0,0.0,0.0,0.0,0.0,0.0,PointType.CORNER;10.0,0.0,10.0,0.0,10.0,0.0,PointType.CORNER;5.0,8.5,5.0,8.5,5.0,8.5,PointType.CORNER|closed'',
               [shapeA, shapeB])]"
    by code_simp
  have h7: "groupByHash (compoundPathToHash 20 noExponent 1)
         [emptyCompoundA, pointlessCompoundA, emptyCompoundB, pointlessCompoundB] []
       = Inr [(''|'', [pointlessCompoundA, pointlessCompoundB])]"
    by code_simp
  note inst = empty_geometry_skipped [OF h1 h2 h3 h4,
      of 20 noExponent 1 "[emptyPathA, shapeA, emptyPathB, shapeB]"
         "[emptyCompoundA, pointlessCompoundA, emptyCompoundB, pointlessCompoundB]"
         illustrator emptyShapes]
  from inst h6 have g1: "emptyPathA \<notin> set [shapeA, shapeB]"
    by fastforce
  from inst h7 have g2: "emptyCompoundA \<notin> set [pointlessCompoundA, pointlessCompoundB]"
    by fastforce
  from inst have k1: "pathToHash 20 noExponent 1 (Some emptyPathA) = Inr []"
    and k2: "compoundPathToHash 20 noExponent 1 (Some emptyCompoundA) = Inr []"
    and c1: "emptyPathA \<notin> set (snd (hostState (main (recording illustrator) 20 noExponent 1 (emptyShapes, []))))"
    and c2: "emptyCompoundA \<notin> set (snd (hostState (main (recording illustrator) 20 noExponent 1 (emptyShapes, []))))"
    by blast+
  show ?thesis
    by (intro conjI h1 h2 h3 h4 h5 h6 h7 g1 g2 k1 k2 c1 c2)
qed

text \<open>A document of such items through \<open>main\<close>: nothing is removed, at any precision.\<close>

lemma scenario_empty_shapes:
  "main illustrator 20 noExponent 1 emptyShapes =
     \<lparr>hostState = emptyShapes, console = [],
      alerts = [''Removed 0 duplicate path items, 0 duplicate compound paths!''],
      thrown = None\<rparr>"
  "main illustrator 20 noExponent 21 emptyShapes =
     \<lparr>hostState = emptyShapes, console = [],
      alerts = [''Removed 0 duplicate path items, 0 duplicate compound paths!''],
      thrown = None\<rparr>"
  by code_simp+

subsection \<open>Failing removals\<close>

lemma attemptAll_append:
  "attemptAll host (xs @ ys) h =
     (fst (attemptAll host xs h) @ fst (attemptAll host ys (snd (attemptAll host xs h))),
      snd (attemptAll host ys (snd (attemptAll host xs h))))"
proof (induction xs arbitrary: h)
  case Nil
  show ?case by simp
next
  case (Cons x xs)
  show ?case by (simp add: Cons split: prod.splits)
qed

lemma successes_append: "successes (xs @ ys) = successes xs + successes ys"
  by (simp add: successes_def)

lemma failures_append: "failures (xs @ ys) = failures xs @ failures ys"
  by (simp add: failures_def)

text \<open>
  Claim C6. Let \<open>d\<close> be any of the members the removal loops go through (the members after
  the first of every group, \<open>before\<close> it and \<open>after\<close> it the others), and let \<^verbatim>\<open>remove()\<close>
  throw \<open>e\<close> on \<open>d\<close>. Then the loops still call \<^verbatim>\<open>remove()\<close> on every member of
  \<open>after\<close>, \<open>e\<close> goes to the console, and the removed count grows by the successes
  before and after \<open>d\<close> only.
\<close>

theorem failure_tolerance:
  assumes "attempted groups = before @ d # after"
    and "attemptAll host before h = (rs1, h1)"
    and "remove host d h1 = (Some e, h2)"
    and "attemptAll host after h2 = (rs2, h3)"
  shows "removeDuplicates (recording host) groups ((h, cs), n, out) =
     ((h3, cs @ before @ d # after), n + successes rs1 + successes rs2,
      out @ failures rs1 @ [e] @ failures rs2)"
proof -
  have "attemptAll host (d # after) h1 = (Some e # rs2, h3)"
    using assms(3,4) by simp
  then have all: "attemptAll host (before @ d # after) h = (rs1 @ Some e # rs2, h3)"
    using assms(2) by (simp add: attemptAll_append)
  have "successes (rs1 @ Some e # rs2) = successes rs1 + successes rs2"
    by (simp add: successes_def)
  moreover have "failures (rs1 @ Some e # rs2) = failures rs1 @ [e] @ failures rs2"
    by (simp add: failures_def)
  ultimately show ?thesis
    using all assms(1) by (simp add: removeDuplicates_recording)
qed

theorem failure_tolerance_witness:
  "attempted [(''k'', [shapeA, shapeB, shapeC])] = [] @ shapeB # [shapeC]
   \<and> attemptAll illustrator [] stubbornShapes = ([], stubbornShapes)
   \<and> remove illustrator shapeB stubbornShapes = (Some ''Error: cannot remove'', stubbornShapes)
   \<and> attemptAll illustrator [shapeC] stubbornShapes
        = ([None], stubbornShapes\<lparr>docLayers := [Some (layer 10 [shapeA, shapeB])]\<rparr>)
   \<and> removeDuplicates (recording illustrator) [(''k'', [shapeA, shapeB, shapeC])]
        ((stubbornShapes, []), 0, [])
      = ((stubbornShapes\<lparr>docLayers := [Some (layer 10 [shapeA, shapeB])]\<rparr>, [shapeB, shapeC]),
         1, [''Error: cannot remove''])"
proof -
  have h1: "attempted [(''k'', [shapeA, shapeB, shapeC])] = [] @ shapeB # [shapeC]"
    by (simp add: attempted_def)
  have h2: "attemptAll illustrator [] stubbornShapes = ([], stubbornShapes)"
    by simp
  have h3: "remove illustrator shapeB stubbornShapes = (Some ''Error: cannot remove'', stubbornShapes)"
    by code_simp
  have h4: "attemptAll illustrator [shapeC] stubbornShapes
        = ([None], stubbornShapes\<lparr>docLayers := [Some (layer 10 [shapeA, shapeB])]\<rparr>)"
    by code_simp
  from failure_tolerance [OF h1 h2 h3 h4, of "[]" 0 "[]"] h1 h2 h3 h4
  show ?thesis by (simp add: successes_def failures_def)
qed

text \<open>The scenario of the specification through \<open>main\<close>: B cannot be removed, C still is.\<close>

lemma scenario_failure_tolerance:
  "main illustrator 20 noExponent 1 stubbornShapes =
     \<lparr>hostState = stubbornShapes\<lparr>docLayers := [Some (layer 10 [shapeA, shapeB])]\<rparr>,
      console = [''Error: cannot remove''],
      alerts = [''Removed 1 duplicate path item, 0 duplicate compound paths!''],
      thrown = None\<rparr>"
  by code_simp

subsection \<open>Nothing eligible\<close>

text \<open>
  Claim C8. With a document open, when the traversal finds no compound path and the
  second phase finds no candidate, \<open>main\<close> shows the "No eligible paths" alert and stops:
  \<^verbatim>\<open>remove()\<close> has not been called, the document is as it was and nothing was thrown.
\<close>

theorem nothing_eligible:
  assumes "documentsLength host h \<noteq> 0"
    and "compoundPaths_loop (layers host h) [] = []"
    and "candidates host (length (layers host h)) h = []"
  shows "main (recording host) maxDigits ts p (h, []) =
     \<lparr>hostState = (h, []), console = [], alerts = [nothingEligible], thrown = None\<rparr>"
  using assms by (simp add: main_def recording_simps candidates_recording)

theorem nothing_eligible_witness:
  "documentsLength illustrator lockedAndHidden \<noteq> 0
   \<and> compoundPaths_loop (layers illustrator lockedAndHidden) [] = []
   \<and> candidates illustrator (length (layers illustrator lockedAndHidden)) lockedAndHidden = []
   \<and> main (recording illustrator) 20 noExponent 1 (lockedAndHidden, []) =
       \<lparr>hostState = (lockedAndHidden, []), console = [], alerts = [nothingEligible],
        thrown = None\<rparr>"
proof -
  have h1: "documentsLength illustrator lockedAndHidden \<noteq> 0" by code_simp
  have h2: "compoundPaths_loop (layers illustrator lockedAndHidden) [] = []"
    by code_simp
  have h3: "candidates illustrator (length (layers illustrator lockedAndHidden)) lockedAndHidden = []"
    by code_simp
  from nothing_eligible [OF h1 h2 h3, of 20 noExponent 1] h1 h2 h3
  show ?thesis by blast
qed

subsection \<open>Compound paths made of empty sub-paths\<close>

lemma join_replicate_empty: "join [c] (replicate n []) = replicate (n - 1) c"
proof (induction n)
  case 0
  show ?case by simp
next
  case (Suc n)
  show ?case
  proof (cases n)
    case 0
    then show ?thesis by simp
  next
    case (Suc m)
    then show ?thesis using Suc.IH by simp
  qed
qed

lemma sort_replicate: "sort (replicate n (x::string)) = replicate n x"
  by (simp add: sort_key_id_if_sorted)

lemma groupByHash_same_key:
  assumes "\<forall>x \<in> set xs. f (Some x) = Inr k" and "k \<noteq> []"
  shows "groupByHash f xs [(k, acc)] = Inr [(k, acc @ xs)]"
  using assms by (induction xs arbitrary: acc) simp_all

lemma groupByHash_same_key_start:
  assumes "\<forall>x \<in> set (x0 # xs). f (Some x) = Inr k" and "k \<noteq> []"
  shows "groupByHash f (x0 # xs) [] = Inr [(k, x0 # xs)]"
  using assms groupByHash_same_key [of xs f k "[x0]"] by simp

lemma compoundPathToHash_pointless:
  assumes "pathItems c = Some subs" and "subs \<noteq> []"
    and "\<forall>s \<in> set subs. \<exists>i. s = Some i \<and> pathPoints i = Some []"
  shows "compoundPathToHash L ts p (Some c) = Inr (replicate (length subs - 1) CHR ''|'')"
proof -
  have np: "\<not> pointed s" if "s \<in> set subs" for s
    using assms(3) that by (auto simp: pointed_def)
  have "map (pathKey ts p) subs = map (\<lambda>s. []) subs"
    by (rule map_cong) (simp_all add: np pathKey_unpointed)
  then have m: "map (pathKey ts p) subs = replicate (length subs) []"
    by (simp only: map_replicate_const)
  have "\<not> (\<exists>s \<in> set subs. pointed s)" using np by blast
  then have "compoundPathToHash L ts p (Some c) = Inr (join ''|'' (sort (map (pathKey ts p) subs)))"
    using assms(1,2) by (simp add: compoundPathToHash_Some)
  then show ?thesis
    unfolding m by (simp add: sort_replicate join_replicate_empty)
qed

text \<open>The key of a compound path is empty only without sub-paths or with one of empty key.\<close>

lemma join_empty_iff: "join [c] xs = [] \<longleftrightarrow> xs = [] \<or> xs = [[]]"
  by (induction "[c]" xs rule: join.induct) auto

lemma compoundPathToHash_empty_iff:
  assumes "pathItems c = Some subs"
  shows "compoundPathToHash L ts p (Some c) = Inr [] \<longleftrightarrow>
           subs = [] \<or> (\<exists>s. subs = [s] \<and> pathToHash L ts p s = Inr [])"
proof (cases "subs = []")
  case True
  then show ?thesis using assms by (simp add: compoundPathToHash_def)
next
  case False
  note ne = False
  show ?thesis
  proof (cases "p > L \<and> (\<exists>s \<in> set subs. pointed s)")
    case True
    then have "compoundPathToHash L ts p (Some c) = Inl RangeError"
      using assms ne by (simp add: compoundPathToHash_Some)
    moreover have "\<not> (\<exists>s. subs = [s] \<and> pathToHash L ts p s = Inr [])"
      using True by (auto simp: pathToHash_eq)
    ultimately show ?thesis using ne by simp
  next
    case False
    then have k: "compoundPathToHash L ts p (Some c) = Inr (join ''|'' (sort (map (pathKey ts p) subs)))"
      using assms ne by (simp add: compoundPathToHash_Some)
    have h: "pathToHash L ts p s = Inr (pathKey ts p s)" if "s \<in> set subs" for s
      using False that by (auto simp: pathToHash_eq)
    have "sort (map (pathKey ts p) subs) = [[]] \<longleftrightarrow> (\<exists>s. subs = [s] \<and> pathKey ts p s = [])"
    proof
      assume a: "sort (map (pathKey ts p) subs) = [[]]"
      then have "length subs = 1" by (metis length_map length_sort length_Cons list.size(3) One_nat_def)
      then obtain s where s: "subs = [s]" by (cases subs) auto
      with a show "\<exists>s. subs = [s] \<and> pathKey ts p s = []" by simp
    next
      assume "\<exists>s. subs = [s] \<and> pathKey ts p s = []"
      then show "sort (map (pathKey ts p) subs) = [[]]" by auto
    qed
    moreover have "(\<exists>s. subs = [s] \<and> pathKey ts p s = [])
                   \<longleftrightarrow> (\<exists>s. subs = [s] \<and> pathToHash L ts p s = Inr [])"
      using h by auto
    moreover have "sort (map (pathKey ts p) subs) \<noteq> []"
      using ne by (metis length_map length_sort length_0_conv)
    ultimately show ?thesis
      using ne unfolding k by (simp add: join_empty_iff)
  qed
qed

text \<open>
  Claim C10. Two compound paths with the same number \<open>n \<ge> 2\<close> of sub-paths, all without
  control points, both get the key of \<open>n - 1\<close> bars, which is not empty; collected as
  \<open>c1, c2\<close> they form one group and \<^verbatim>\<open>remove()\<close> is called on \<open>c2\<close>, also in a run
  of \<open>main\<close> that collects them. The key of a compound path is empty only when it has no
  sub-path, or a single one whose key is empty.
\<close>

theorem pointless_compounds_are_duplicates:
  assumes "pathItems c1 = Some subs1" and "pathItems c2 = Some subs2"
    and "length subs1 = n" and "length subs2 = n" and "2 \<le> n"
    and "\<forall>s \<in> set subs1 \<union> set subs2. \<exists>i. s = Some i \<and> pathPoints i = Some []"
  shows "compoundPathToHash maxDigits ts p (Some c1) = Inr (replicate (n - 1) CHR ''|'')
       \<and> compoundPathToHash maxDigits ts p (Some c2) = Inr (replicate (n - 1) CHR ''|'')
       \<and> replicate (n - 1) CHR ''|'' \<noteq> []
       \<and> groupByHash (compoundPathToHash maxDigits ts p) [c1, c2] []
           = Inr [(replicate (n - 1) CHR ''|'', [c1, c2])]
       \<and> calls (removeDuplicates (recording host)
                 [(replicate (n - 1) CHR ''|'', [c1, c2])] ((h, []), 0, [])) = [c2]
       \<and> (documentsLength host h \<noteq> 0 \<and> compoundPaths_loop (layers host h) [] = [c1, c2] \<longrightarrow>
             c2 \<in> set (snd (hostState (main (recording host) maxDigits ts p (h, [])))))
       \<and> (\<forall>c subs. pathItems c = Some subs \<longrightarrow>
             (compoundPathToHash maxDigits ts p (Some c) = Inr [] \<longleftrightarrow>
                subs = [] \<or> (\<exists>s. subs = [s] \<and> pathToHash maxDigits ts p s = Inr [])))"
proof -
  let ?k = "replicate (n - 1) CHR ''|''"
  have ne1: "subs1 \<noteq> []" and ne2: "subs2 \<noteq> []" using assms(3,4,5) by auto
  have k1: "compoundPathToHash maxDigits ts p (Some c1) = Inr ?k"
    using compoundPathToHash_pointless [OF assms(1) ne1] assms(3,6) by simp
  have k2: "compoundPathToHash maxDigits ts p (Some c2) = Inr ?k"
    using compoundPathToHash_pointless [OF assms(2) ne2] assms(4,6) by simp
  have kne: "?k \<noteq> []" using assms(5) by simp
  have g: "groupByHash (compoundPathToHash maxDigits ts p) [c1, c2] [] = Inr [(?k, [c1, c2])]"
    using groupByHash_same_key_start [of c1 "[c2]" "compoundPathToHash maxDigits ts p" ?k] k1 k2 kne
    by simp
  have c: "calls (removeDuplicates (recording host) [(?k, [c1, c2])] ((h, []), 0, [])) = [c2]"
    unfolding removeDuplicates_recording calls_def by (simp add: attempted_def)
  have e: "\<forall>c subs. pathItems c = Some subs \<longrightarrow>
             (compoundPathToHash maxDigits ts p (Some c) = Inr [] \<longleftrightarrow>
                subs = [] \<or> (\<exists>s. subs = [s] \<and> pathToHash maxDigits ts p s = Inr []))"
    using compoundPathToHash_empty_iff by blast
  have m: "documentsLength host h \<noteq> 0 \<and> compoundPaths_loop (layers host h) [] = [c1, c2] \<longrightarrow>
             c2 \<in> set (snd (hostState (main (recording host) maxDigits ts p (h, []))))"
  proof
    assume a: "documentsLength host h \<noteq> 0 \<and> compoundPaths_loop (layers host h) [] = [c1, c2]"
    then have o: "documentsLength host h \<noteq> 0"
      and cp: "[c1, c2] = compoundPaths_loop (layers host h) []"
      by simp_all
    have "c2 \<in> set (attempted [(?k, [c1, c2])])"
      by (simp add: attempted_def)
    then show "c2 \<in> set (snd (hostState (main (recording host) maxDigits ts p (h, []))))"
      unfolding main_calls [OF o cp g refl refl] by simp
  qed
  from k1 k2 kne g c m e show ?thesis by blast
qed

theorem pointless_compounds_are_duplicates_witness:
  "pathItems pointlessCompoundA = Some [Some (pathItem 42 [] False), Some (pathItem 43 [] False)]
   \<and> pathItems pointlessCompoundB = Some [Some (pathItem 45 [] True), Some (pathItem 46 [] False)]
   \<and> (2::nat) \<le> 2
   \<and> compoundPathToHash 20 noExponent 1 (Some pointlessCompoundA) = Inr ''|''
   \<and> compoundPathToHash 20 noExponent 1 (Some pointlessCompoundB) = Inr ''|''
   \<and> groupByHash (compoundPathToHash 20 noExponent 1) [pointlessCompoundA, pointlessCompoundB] []
       = Inr [(''|'', [pointlessCompoundA, pointlessCompoundB])]
   \<and> calls (removeDuplicates (recording illustrator)
        [(''|'', [pointlessCompoundA, pointlessCompoundB])]
        ((pointlessCompounds, []), 0, [])) = [pointlessCompoundB]
   \<and> documentsLength illustrator pointlessCompounds \<noteq> 0
   \<and> compoundPaths_loop (layers illustrator pointlessCompounds) []
       = [pointlessCompoundA, pointlessCompoundB]
   \<and> pointlessCompoundB
       \<in> set (snd (hostState (main (recording illustrator) 20 noExponent 1 (pointlessCompounds, []))))"
proof -
  have h1: "pathItems pointlessCompoundA = Some [Some (pathItem 42 [] False), Some (pathItem 43 [] False)]"
    by (simp add: pointlessCompoundA_def compoundPathItem_def)
  have h2: "pathItems pointlessCompoundB = Some [Some (pathItem 45 [] True), Some (pathItem 46 [] False)]"
    by (simp add: pointlessCompoundB_def compoundPathItem_def)
  have h3: "length [Some (pathItem 42 [] False), Some (pathItem 43 [] False)] = 2" by simp
  have h4: "length [Some (pathItem 45 [] True), Some (pathItem 46 [] False)] = 2" by simp
  have h5: "(2::nat) \<le> 2" by simp
  have h6: "\<forall>s \<in> set [Some (pathItem 42 [] False), Some (pathItem 43 [] False)]
                 \<union> set [Some (pathItem 45 [] True), Some (pathItem 46 [] False)].
              \<exists>i. s = Some i \<and> pathPoints i = Some []"
    by (simp add: pathItem_def)
  have h7: "documentsLength illustrator pointlessCompounds \<noteq> 0" by code_simp
  have h8: "compoundPaths_loop (layers illustrator pointlessCompounds) []
       = [pointlessCompoundA, pointlessCompoundB]"
    by code_simp
  note inst = pointless_compounds_are_duplicates [OF h1 h2 h3 h4 h5 h6,
      of 20 noExponent 1 illustrator pointlessCompounds]
  have k: "replicate (2 - 1) CHR ''|'' = ''|''" by simp
  from inst have c1: "compoundPathToHash 20 noExponent 1 (Some pointlessCompoundA) = Inr ''|''"
    unfolding k by blast
  from inst have c2: "compoundPathToHash 20 noExponent 1 (Some pointlessCompoundB) = Inr ''|''"
    unfolding k by blast
  from inst have c3: "groupByHash (compoundPathToHash 20 noExponent 1)
        [pointlessCompoundA, pointlessCompoundB] []
       = Inr [(''|'', [pointlessCompoundA, pointlessCompoundB])]"
    unfolding k by blast
  from inst have c4: "calls (removeDuplicates (recording illustrator)
        [(''|'', [pointlessCompoundA, pointlessCompoundB])]
        ((pointlessCompounds, []), 0, [])) = [pointlessCompoundB]"
    unfolding k by blast
  from inst h7 h8 have c5: "pointlessCompoundB
       \<in> set (snd (hostState (main (recording illustrator) 20 noExponent 1 (pointlessCompounds, []))))"
    by blast
  from h1 h2 h5 c1 c2 c3 c4 h7 h8 c5 show ?thesis by blast
qed

text \<open>
  Two such compound paths through \<open>main\<close>: the second is removed. They have no point to
  format, so this is so at a precision \<^verbatim>\<open>toFixed\<close> would refuse as well.
\<close>

lemma scenario_pointless_compounds:
  "main illustrator 20 noExponent 1 pointlessCompounds =
     \<lparr>hostState = pointlessCompounds\<lparr>docLayers := [Some (layer 10 [pointlessCompoundA])]\<rparr>,
      console = [],
      alerts = [''Removed 0 duplicate path items, 1 duplicate compound path!''],
      thrown = None\<rparr>"
  "main illustrator 20 noExponent 21 pointlessCompounds =
     \<lparr>hostState = pointlessCompounds\<lparr>docLayers := [Some (layer 10 [pointlessCompoundA])]\<rparr>,
      console = [],
      alerts = [''Removed 0 duplicate path items, 1 duplicate compound path!''],
      thrown = None\<rparr>"
  by code_simp+

subsection \<open>The traversal\<close>

lemma collectPaths_loop_append:
  "collectPaths_loop (xs @ ys) paths t = collectPaths_loop ys (collectPaths_loop xs paths t) t"
proof (induction xs arbitrary: paths)
  case Nil
  show ?case by simp
next
  case (Cons x xs)
  show ?case
  proof (cases x)
    case None
    then show ?thesis by (simp add: Cons)
  next
    case (Some a)
    then show ?thesis by (simp add: Cons Let_def)
  qed
qed

lemma collectPaths_loop_flagged:
  "locked c \<or> hidden c \<or> guides c \<or> clipping c \<Longrightarrow>
   collectPaths_loop (Some c # rest) paths t = collectPaths_loop rest paths t"
  by auto

lemma collected_unflagged:
  shows "\<forall>x \<in> set (collectPaths_from c paths t). x \<in> set paths \<or> \<not> flagged x"
    and "\<forall>x \<in> set (collectPaths_loop items ps t). x \<in> set ps \<or> \<not> flagged x"
proof (induction c paths t and items ps t rule: collectPaths_from_collectPaths_loop.induct)
  case (1 i tn lk hi gu cl pts cf subs paths pageItemTypename)
  show ?case by simp
next
  case (2 i tn lk hi gu cl pts cf subs items paths pageItemTypename)
  then show ?case by simp
next
  case (3 paths pageItemTypename)
  show ?case by simp
next
  case (4 rest paths pageItemTypename)
  then show ?case by simp
next
  case (5 pageItem rest paths pageItemTypename)
  show ?case
  proof (cases "locked pageItem \<or> hidden pageItem \<or> guides pageItem \<or> clipping pageItem")
    case True
    then show ?thesis using 5(1) by simp
  next
    case False
    note nf = False
    then have unfl: "\<not> flagged pageItem" by (simp add: flagged_def)
    show ?thesis
    proof (cases "typename pageItem = pageItemTypename")
      case True
      then show ?thesis using nf unfl 5(2) [OF nf True refl refl]
        by (auto simp: Let_def split: if_splits)
    next
      case False
      note nt = False
      show ?thesis
      proof (cases "isContainerType (typename pageItem)")
        case True
        then show ?thesis using nf nt 5(3) [OF nf nt True] 5(4) [OF nf nt True]
          by auto
      next
        case False
        then show ?thesis using nf nt 5(5) [OF nf nt False] by simp
      qed
    qed
  qed
qed

text \<open>
  Claim C7. A child with any of the four flags set is skipped: the traversal of a
  container gives the same result as if the child were not there, so nothing below it is
  collected through it, and the child itself is not in the output.
\<close>

theorem flagged_child_skipped:
  assumes "locked c \<or> hidden c \<or> guides c \<or> clipping c"
  shows "collectPaths (Some (PageItem i tn lk hi gu cl pts cf subs (Some (before @ Some c # after))))
           paths t
       = collectPaths (Some (PageItem i tn lk hi gu cl pts cf subs (Some (before @ after)))) paths t
       \<and> c \<notin> set (collectPaths
                    (Some (PageItem i tn lk hi gu cl pts cf subs (Some (before @ Some c # after)))) [] t)"
proof
  show "collectPaths (Some (PageItem i tn lk hi gu cl pts cf subs (Some (before @ Some c # after))))
           paths t
       = collectPaths (Some (PageItem i tn lk hi gu cl pts cf subs (Some (before @ after)))) paths t"
    using assms
    by (simp add: collectPaths_def collectPaths_loop_append collectPaths_loop_flagged)
next
  have "flagged c" using assms by (simp add: flagged_def)
  then show "c \<notin> set (collectPaths
                    (Some (PageItem i tn lk hi gu cl pts cf subs (Some (before @ Some c # after)))) [] t)"
    using collected_unflagged(2) [of _ "[]"] by (auto simp: collectPaths_def)
qed

theorem flagged_child_skipped_witness:
  "(locked lockedGroup \<or> hidden lockedGroup \<or> guides lockedGroup \<or> clipping lockedGroup)
   \<and> collectPaths (Some (PageItem 10 ''Layer'' False False False False None False None
                          (Some ([Some shapeA] @ Some lockedGroup # [Some shapeC])))) [] None
       = [shapeA, shapeC]
   \<and> collectPaths (Some (PageItem 10 ''Layer'' False False False False None False None
                          (Some ([Some shapeA] @ [Some shapeC])))) [] None
       = [shapeA, shapeC]"
proof -
  have h: "locked lockedGroup \<or> hidden lockedGroup \<or> guides lockedGroup \<or> clipping lockedGroup"
    by (simp add: lockedGroup_def)
  have r: "collectPaths (Some (PageItem 10 ''Layer'' False False False False None False None
                          (Some ([Some shapeA] @ [Some shapeC])))) [] None
       = [shapeA, shapeC]"
    by code_simp
  from flagged_child_skipped [OF h, of 10 "''Layer''" False False False False None False None
      "[Some shapeA]" "[Some shapeC]" "[]" None] h r
  show ?thesis by simp
qed

subsection \<open>The selection\<close>

lemma collectPaths_from_mono: "set paths \<subseteq> set (collectPaths_from c paths t)"
  and collectPaths_loop_mono: "set ps \<subseteq> set (collectPaths_loop items ps t)"
proof (induction c paths t and items ps t rule: collectPaths_from_collectPaths_loop.induct)
  case (1 i tn lk hi gu cl pts cf subs paths pageItemTypename)
  show ?case by simp
next
  case (2 i tn lk hi gu cl pts cf subs items paths pageItemTypename)
  then show ?case by simp
next
  case (3 paths pageItemTypename)
  show ?case by simp
next
  case (4 rest paths pageItemTypename)
  then show ?case by simp
next
  case (5 pageItem rest paths pageItemTypename)
  show ?case
  proof (cases "locked pageItem \<or> hidden pageItem \<or> guides pageItem \<or> clipping pageItem")
    case True
    then show ?thesis using 5(1) by simp
  next
    case False
    note nf = False
    show ?thesis
    proof (cases "typename pageItem = pageItemTypename")
      case True
      then show ?thesis using nf 5(2) [OF nf True refl refl]
        by (auto simp: Let_def split: if_splits)
    next
      case False
      note nt = False
      show ?thesis
      proof (cases "isContainerType (typename pageItem)")
        case True
        then show ?thesis using nf nt 5(3) [OF nf nt True] 5(4) [OF nf nt True]
          by auto
      next
        case False
        then show ?thesis using nf nt 5(5) [OF nf nt False] by simp
      qed
    qed
  qed
qed

lemma collectPaths_mono: "set paths \<subseteq> set (collectPaths c paths t)"
  using collectPaths_from_mono by (cases c) (auto simp: collectPaths_def)

lemma collectSelection_mono: "set paths \<subseteq> set (collectSelection sel paths)"
proof (induction sel paths rule: collectSelection.induct)
  case (1 paths)
  show ?case by simp
next
  case (2 rest paths)
  then show ?case by simp
next
  case (3 selectionItem rest paths)
  then show ?case using collectPaths_mono [of paths "Some selectionItem" None]
    by (simp split: if_splits) blast+
qed

lemma collectSelection_append:
  "collectSelection (xs @ ys) paths = collectSelection ys (collectSelection xs paths)"
proof (induction xs paths rule: collectSelection.induct)
  case (1 paths)
  show ?case by simp
next
  case (2 rest paths)
  then show ?case by simp
next
  case (3 selectionItem rest paths)
  then show ?case by simp
qed

text \<open>
  Claim C9 says that a directly selected simple shape is taken without the flag check.
  The selection loop does test the four flags first: a selected clipping path is not a
  candidate.
\<close>

theorem selected_path_flags_counterexample:
  "\<not> (\<forall>host h n x. selection host h \<noteq> None \<and> Some x \<in> set (the (selection host h))
         \<and> typename x = ''PathItem'' \<longrightarrow> x \<in> set (candidates host n (h::document)))"
proof
  assume a: "\<forall>host h n x. selection host h \<noteq> None \<and> Some x \<in> set (the (selection host h))
         \<and> typename x = ''PathItem'' \<longrightarrow> x \<in> set (candidates host n (h::document))"
  have "selection illustrator clippingSelection \<noteq> None
        \<and> Some clippingShape \<in> set (the (selection illustrator clippingSelection))
        \<and> typename clippingShape = ''PathItem''"
    by (simp add: illustrator_def clippingSelection_def clippingShape_def)
  with a have "clippingShape \<in> set (candidates illustrator 1 clippingSelection)" by blast
  moreover have "candidates illustrator 1 clippingSelection = []" by code_simp
  ultimately show False by simp
qed

text \<open>
  Claim C9, amended. A directly selected \<^verbatim>\<open>PathItem\<close> with none of the four flags set
  is pushed as it is, whatever its path points are (\<^verbatim>\<open>collectPaths\<close> would want at
  least one); with a flag set it is skipped, as if it were not selected.
\<close>

theorem selected_path_as_is:
  assumes "selection host h = Some (before @ Some x # after)"
    and "typename x = ''PathItem''"
  shows "(\<not> (locked x \<or> hidden x \<or> guides x \<or> clipping x) \<longrightarrow>
            candidates host n h
              = collectSelection after (collectSelection before [] @ [x])
            \<and> x \<in> set (candidates host n h))
       \<and> (locked x \<or> hidden x \<or> guides x \<or> clipping x \<longrightarrow>
            candidates host n h = collectSelection (before @ after) [])"
proof -
  have c: "candidates host n h = collectSelection (before @ Some x # after) []"
    using assms(1) by (simp add: candidates_def)
  show ?thesis
  proof (cases "locked x \<or> hidden x \<or> guides x \<or> clipping x")
    case True
    then show ?thesis using c by (simp add: collectSelection_append)
  next
    case False
    then have e: "candidates host n h = collectSelection after (collectSelection before [] @ [x])"
      using c assms(2) by (simp add: collectSelection_append)
    have "x \<in> set (collectSelection before [] @ [x])" by simp
    then have "x \<in> set (candidates host n h)"
      using collectSelection_mono [of "collectSelection before [] @ [x]" after] e by auto
    with e False show ?thesis by simp
  qed
qed

theorem selected_path_as_is_witness:
  "selection illustrator emptySelection = Some ([Some shapeA] @ Some emptyPathA # [Some lockedShape])
   \<and> typename emptyPathA = ''PathItem''
   \<and> \<not> (locked emptyPathA \<or> hidden emptyPathA \<or> guides emptyPathA \<or> clipping emptyPathA)
   \<and> emptyPathA \<in> set (candidates illustrator 1 emptySelection)
   \<and> collectPaths (Some (layer 10 [emptyPathA, shapeA])) [] None = [shapeA]"
proof -
  have h1: "selection illustrator emptySelection = Some ([Some shapeA] @ Some emptyPathA # [Some lockedShape])"
    by (simp add: illustrator_def emptySelection_def)
  have h2: "typename emptyPathA = ''PathItem''"
    by (simp add: emptyPathA_def pathItem_def)
  have h3: "\<not> (locked emptyPathA \<or> hidden emptyPathA \<or> guides emptyPathA \<or> clipping emptyPathA)"
    by (simp add: emptyPathA_def pathItem_def)
  have h4: "collectPaths (Some (layer 10 [emptyPathA, shapeA])) [] None = [shapeA]"
    by code_simp
  from selected_path_as_is [OF h1 h2, of 1] h1 h2 h3 h4
  show ?thesis by blast
qed

subsection \<open>Keys and bars\<close>

text \<open>
  A key that is not empty contains a bar. So no key is the name of a property an object
  inherits (\<^verbatim>\<open>constructor\<close>, \<^verbatim>\<open>toString\<close>, ...) and none is an array index: the objects
  \<^verbatim>\<open>hashToPaths\<close> and \<^verbatim>\<open>hashToCompoundPaths\<close> hold exactly the keys stored in them, in the
  order of their first insertion.
\<close>

lemma keys_contain_bar:
  "pathToHash L ts p x = Inr k \<Longrightarrow> k \<noteq> [] \<Longrightarrow> CHR ''|'' \<in> set k"
  using pathKey_contains_bar [of ts p x] pathToHash_Inr [of L ts p x k] by simp

lemma compound_keys_contain_bar:
  assumes "compoundPathToHash L ts p x = Inr k" and "k \<noteq> []"
  shows "CHR ''|'' \<in> set k"
proof -
  from assms obtain c subs where x: "x = Some c" and subs: "pathItems c = Some subs" and ne: "subs \<noteq> []"
    by (auto simp: compoundPathToHash_def split: option.splits if_splits)
  have k: "k = join ''|'' (sort (map (pathKey ts p) subs))"
    using assms(1) x subs ne by (simp add: compoundPathToHash_Some split: if_splits)
  have "\<forall>h \<in> set (sort (map (pathKey ts p) subs)). h \<noteq> [] \<longrightarrow> CHR ''|'' \<in> set h"
    using pathKey_contains_bar by auto
  then show ?thesis using assms(2) unfolding k by (rule join_bar [rotated])
qed

text \<open>Below \<open>10^21\<close> the parameter \<open>numberToString\<close> is never asked.\<close>

lemma pathToHash_any_numberToString:
  assumes "pathPoints s = Some pts" and "plain pts"
  shows "pathToHash L ts p (Some s) = pathToHash L ts' p (Some s)"
  using pathKey_any_numberToString [OF assms, of ts p ts'] by (simp add: pathToHash_eq)

subsection \<open>Precision\<close>

lemma floor_close:
  fixes u v :: rat
  assumes "\<bar>u - v\<bar> < 1"
  shows "\<bar>\<lfloor>u\<rfloor> - \<lfloor>v\<rfloor>\<bar> \<le> 1"
proof -
  have "u \<le> v + 1" "v \<le> u + 1" using assms by linarith+
  then have "\<lfloor>u\<rfloor> \<le> \<lfloor>v + 1\<rfloor>" "\<lfloor>v\<rfloor> \<le> \<lfloor>u + 1\<rfloor>" by (simp_all only: floor_mono)
  then show ?thesis by simp
qed

lemma toFixed_n_step:
  assumes "0 \<le> a" and "0 \<le> b" and "toFixed_n a (Suc p) = toFixed_n b (Suc p)"
  shows "\<bar>int (toFixed_n a p) - int (toFixed_n b p)\<bar> \<le> 1"
proof -
  let ?A = "a * 10 ^ Suc p + 1 / 2" and ?B = "b * 10 ^ Suc p + 1 / 2"
  have "int (toFixed_n a (Suc p)) = \<lfloor>?A\<rfloor>" "int (toFixed_n b (Suc p)) = \<lfloor>?B\<rfloor>"
    using assms(1,2) by (simp_all only: toFixed_n_int)
  then have e: "\<lfloor>?A\<rfloor> = \<lfloor>?B\<rfloor>"
    using assms(3) by simp
  have "of_int \<lfloor>?A\<rfloor> \<le> ?A" "?A < of_int \<lfloor>?A\<rfloor> + 1"
       "of_int \<lfloor>?B\<rfloor> \<le> ?B" "?B < of_int \<lfloor>?B\<rfloor> + 1"
    by linarith+
  then have "\<bar>?A - ?B\<bar> < 1"
    unfolding e by linarith
  moreover have "?A - ?B = (a * 10 ^ p - b * 10 ^ p) * 10"
    by (simp add: algebra_simps)
  moreover have "\<bar>(a * 10 ^ p - b * 10 ^ p) * 10\<bar> = \<bar>a * 10 ^ p - b * 10 ^ p\<bar> * 10"
    by (subst abs_mult) simp
  ultimately have "\<bar>a * 10 ^ p - b * 10 ^ p\<bar> * 10 < 1"
    by (simp only:)
  then have "\<bar>(a * 10 ^ p + 1 / 2) - (b * 10 ^ p + 1 / 2)\<bar> < 1"
    by simp
  then have "\<bar>\<lfloor>a * 10 ^ p + 1 / 2\<rfloor> - \<lfloor>b * 10 ^ p + 1 / 2\<rfloor>\<bar> \<le> 1"
    by (rule floor_close)
  then show ?thesis using assms(1,2) by (simp only: toFixed_n_int)
qed

lemma near_hashes:
  "pathToHash 20 noExponent 2 (Some nearA) = Inr ''0.15,0.00,0.15,0.00,0.15,0.00,PointType.CORNER|open''"
  "pathToHash 20 noExponent 2 (Some nearB) = Inr ''0.15,0.00,0.15,0.00,0.15,0.00,PointType.CORNER|open''"
  "pathToHash 20 noExponent 1 (Some nearA) = Inr ''0.1,0.0,0.1,0.0,0.1,0.0,PointType.CORNER|open''"
  "pathToHash 20 noExponent 1 (Some nearB) = Inr ''0.2,0.0,0.2,0.0,0.2,0.0,PointType.CORNER|open''"
  by code_simp+

text \<open>
  Claim C4 says that equal keys at precision \<open>p + 1\<close> give equal keys at precision \<open>p\<close>.
  \<^verbatim>\<open>toFixed\<close> rounds the number itself at each precision, not the number already
  rounded at the finer one: \<open>19/128 = 0.1484375\<close> and \<open>39/256 = 0.15234375\<close> both print
  as \<open>0.15\<close> with two digits, and as \<open>0.1\<close> and \<open>0.2\<close> with one.
\<close>

theorem precision_monotonicity_counterexample:
  "\<not> (\<forall>maxDigits ts s1 s2 p.
         pathToHash maxDigits ts (p + 1) (Some s1) = pathToHash maxDigits ts (p + 1) (Some s2)
         \<longrightarrow> pathToHash maxDigits ts p (Some s1) = pathToHash maxDigits ts p (Some s2))"
proof
  assume "\<forall>maxDigits ts s1 s2 p.
         pathToHash maxDigits ts (p + 1) (Some s1) = pathToHash maxDigits ts (p + 1) (Some s2)
         \<longrightarrow> pathToHash maxDigits ts p (Some s1) = pathToHash maxDigits ts p (Some s2)"
  then have "pathToHash 20 noExponent (1 + 1) (Some nearA) = pathToHash 20 noExponent (1 + 1) (Some nearB)
         \<longrightarrow> pathToHash 20 noExponent 1 (Some nearA) = pathToHash 20 noExponent 1 (Some nearB)"
    by blast
  moreover have "(1::nat) + 1 = 2" by simp
  ultimately show False by (simp only: near_hashes) simp
qed

text \<open>
  Claim C4, amended. For shapes with coordinates below \<open>10^21\<close> in magnitude, the same
  key \<open>k\<close> returned at precision \<open>p + 1\<close> means: the same number of control points, the
  same closed flag (when there are points), the same kind tags, and for every coordinate
  the same sign and integers rounded at precision \<open>p\<close> (the digits \<^verbatim>\<open>toFixed\<close> prints)
  that differ by at most one, that is by one unit of the last digit.
\<close>

theorem precision_step:
  assumes "pathPoints s1 = Some pts1" and "pathPoints s2 = Some pts2"
    and "plain pts1" and "plain pts2"
    and "pathToHash maxDigits ts (Suc p) (Some s1) = Inr k"
    and "pathToHash maxDigits ts (Suc p) (Some s2) = Inr k"
  shows "length pts1 = length pts2
       \<and> (pts1 \<noteq> [] \<longrightarrow> closed_flag s1 = closed_flag s2)
       \<and> (\<forall>i < length pts1.
            pointType (pts1 ! i) = pointType (pts2 ! i)
            \<and> (\<forall>j < 6.
                 (coordinates (pts1 ! i) ! j < 0 \<longleftrightarrow> coordinates (pts2 ! i) ! j < 0)
                 \<and> \<bar>int (toFixed_n (abs (coordinates (pts1 ! i) ! j)) p)
                      - int (toFixed_n (abs (coordinates (pts2 ! i) ! j)) p)\<bar> \<le> 1))"
proof -
  have "pathKey ts (Suc p) (Some s1) = pathKey ts (Suc p) (Some s2)"
    using pathToHash_Inr [OF assms(5)] pathToHash_Inr [OF assms(6)] by simp
  from pathKey_inj [OF assms(1-4) this]
  have m: "map (pointToken ts (Suc p)) pts1 = map (pointToken ts (Suc p)) pts2"
    and c: "pts1 \<noteq> [] \<longrightarrow> closed_flag s1 = closed_flag s2"
    by simp_all
  from m have len: "length pts1 = length pts2" by (rule map_eq_imp_length_eq)
  have pt: "pointType (pts1 ! i) = pointType (pts2 ! i)
            \<and> (\<forall>j < 6.
                 (coordinates (pts1 ! i) ! j < 0 \<longleftrightarrow> coordinates (pts2 ! i) ! j < 0)
                 \<and> \<bar>int (toFixed_n (abs (coordinates (pts1 ! i) ! j)) p)
                      - int (toFixed_n (abs (coordinates (pts2 ! i) ! j)) p)\<bar> \<le> 1)"
    if i: "i < length pts1" for i
  proof -
    let ?a = "pts1 ! i" and ?b = "pts2 ! i"
    have i2: "i < length pts2" using i len by simp
    have pa: "plainPoint ?a" using assms(3) i by (simp add: plain_def list_all_length)
    have pb: "plainPoint ?b" using assms(4) i2 by (simp add: plain_def list_all_length)
    have "map (pointToken ts (Suc p)) pts1 ! i = map (pointToken ts (Suc p)) pts2 ! i"
      using m by simp
    then have "pointToken ts (Suc p) ?a = pointToken ts (Suc p) ?b"
      using i i2 by simp
    from pointToken_inj [OF this pa pb]
    have f: "map (\<lambda>x. toFixed_string ts x (Suc p)) (coordinates ?a)
             = map (\<lambda>x. toFixed_string ts x (Suc p)) (coordinates ?b)"
      and k: "pointType ?a = pointType ?b"
      by simp_all
    have l6: "length (coordinates ?a) = 6" "length (coordinates ?b) = 6"
      by (simp_all add: coordinates_def)
    have co: "(coordinates ?a ! j < 0 \<longleftrightarrow> coordinates ?b ! j < 0)
              \<and> \<bar>int (toFixed_n (abs (coordinates ?a ! j)) p) - int (toFixed_n (abs (coordinates ?b ! j)) p)\<bar> \<le> 1"
      if j: "j < 6" for j
    proof -
      let ?x = "coordinates ?a ! j" and ?y = "coordinates ?b ! j"
      have bdx: "abs ?x < 10 ^ 21" using pa j l6 by (simp add: plainPoint_def list_all_length)
      have bdy: "abs ?y < 10 ^ 21" using pb j l6 by (simp add: plainPoint_def list_all_length)
      have "map (\<lambda>x. toFixed_string ts x (Suc p)) (coordinates ?a) ! j
            = map (\<lambda>x. toFixed_string ts x (Suc p)) (coordinates ?b) ! j"
        using f by simp
      then have "toFixed_string ts ?x (Suc p) = toFixed_string ts ?y (Suc p)"
        using j l6 by simp
      from toFixed_string_inj [OF this bdx bdy]
      have s: "?x < 0 \<longleftrightarrow> ?y < 0" and n: "toFixed_n (abs ?x) (Suc p) = toFixed_n (abs ?y) (Suc p)"
        by simp_all
      have "\<bar>int (toFixed_n (abs ?x) p) - int (toFixed_n (abs ?y) p)\<bar> \<le> 1"
        by (rule toFixed_n_step [OF _ _ n]) simp_all
      with s show ?thesis by simp
    qed
    from k co show ?thesis by blast
  qed
  from len c pt show ?thesis by blast
qed

theorem precision_step_witness:
  "pathPoints nearA = Some [corner (19 / 128) 0] \<and> pathPoints nearB = Some [corner (39 / 256) 0]
   \<and> plain [corner (19 / 128) 0] \<and> plain [corner (39 / 256) 0]
   \<and> pathToHash 20 noExponent (Suc 1) (Some nearA)
       = Inr ''0.15,0.00,0.15,0.00,0.15,0.00,PointType.CORNER|open''
   \<and> pathToHash 20 noExponent (Suc 1) (Some nearB)
       = Inr ''0.15,0.00,0.15,0.00,0.15,0.00,PointType.CORNER|open''
   \<and> toFixed_n (abs (19 / 128)) 1 = 1 \<and> toFixed_n (abs (39 / 256)) 1 = 2
   \<and> \<bar>int (toFixed_n (abs (coordinates ([corner (19 / 128) 0] ! 0) ! 0)) 1)
        - int (toFixed_n (abs (coordinates ([corner (39 / 256) 0] ! 0) ! 0)) 1)\<bar> \<le> 1"
proof -
  have h1: "pathPoints nearA = Some [corner (19 / 128) 0]" by (simp add: nearA_def pathItem_def)
  have h2: "pathPoints nearB = Some [corner (39 / 256) 0]" by (simp add: nearB_def pathItem_def)
  have h3: "plain [corner (19 / 128) 0]"
    by (simp add: plain_def plainPoint_def coordinates_def corner_def)
  have h4: "plain [corner (39 / 256) 0]"
    by (simp add: plain_def plainPoint_def coordinates_def corner_def)
  have two: "Suc 1 = 2" by simp
  have h5: "pathToHash 20 noExponent (Suc 1) (Some nearA)
       = Inr ''0.15,0.00,0.15,0.00,0.15,0.00,PointType.CORNER|open''"
    unfolding two by (simp only: near_hashes)
  have h6: "pathToHash 20 noExponent (Suc 1) (Some nearB)
       = Inr ''0.15,0.00,0.15,0.00,0.15,0.00,PointType.CORNER|open''"
    unfolding two by (simp only: near_hashes)
  have n1: "toFixed_n (abs (19 / 128)) 1 = 1" by code_simp
  have n2: "toFixed_n (abs (39 / 256)) 1 = 2" by code_simp
  from precision_step [OF h1 h2 h3 h4 h5 h6]
  have "\<bar>int (toFixed_n (abs (coordinates ([corner (19 / 128) 0] ! 0) ! 0)) 1)
        - int (toFixed_n (abs (coordinates ([corner (39 / 256) 0] ! 0) ! 0)) 1)\<bar> \<le> 1"
    by simp
  with h1 h2 h3 h4 h5 h6 n1 n2 show ?thesis by blast
qed

subsection \<open>Scenarios of the specification\<close>

text \<open>
  Selection mode: two identical circles selected, three identical squares not selected.
  One circle goes, the squares stay.
\<close>

lemma scenario_selection_mode:
  "main illustrator 20 noExponent 1 selectedCircles =
     \<lparr>hostState =
        selectedCircles
          \<lparr>docLayers :=
             [Some (layer 10 [pathItem 61 circle True, pathItem 63 square True,
                              pathItem 64 square True, pathItem 65 square True])],
           docSelection := Some [Some (pathItem 61 circle True)]\<rparr>,
      console = [],
      alerts = [''Removed 1 duplicate path item, 0 duplicate compound paths!''],
      thrown = None\<rparr>"
  by code_simp

text \<open>
  Whole document: two identical compound paths, their sub-paths in another order, and two
  identical squares. One compound path and one square go.
\<close>

lemma scenario_compound_precedence:
  "main illustrator 20 noExponent 1 compoundsAndPaths =
     \<lparr>hostState =
        compoundsAndPaths
          \<lparr>docLayers :=
             [Some (layer 10 [compoundPathItem 71 [ringA, ringB], pathItem 73 square True])]\<rparr>,
      console = [],
      alerts = [''Removed 1 duplicate path item, 1 duplicate compound path!''],
      thrown = None\<rparr>"
  by code_simp

text \<open>No document open: the alert, and nothing else.\<close>

lemma scenario_no_document:
  "main illustrator 20 noExponent 1 (compoundsAndPaths\<lparr>documentCount := 0\<rparr>) =
     \<lparr>hostState = compoundsAndPaths\<lparr>documentCount := 0\<rparr>, console = [],
      alerts = [''No documents are open.''], thrown = None\<rparr>"
  by code_simp

text \<open>
  A precision the engine refuses: the script ends with the exception, before any alert
  and, here, before anything is removed.
\<close>

lemma scenario_precision_refused:
  "main illustrator 20 noExponent 21 threeShapes =
     \<lparr>hostState = threeShapes, console = [], alerts = [], thrown = Some RangeError\<rparr>"
  "main illustrator 20 noExponent 21 compoundsAndPaths =
     \<lparr>hostState = compoundsAndPaths, console = [], alerts = [], thrown = Some RangeError\<rparr>"
  by code_simp+

end
